theory Spec2Isabelle
  imports Complex_Main "HOL-Library.AList" "HOL-Library.Multiset"
    "HOL-Library.List_Lexorder" "HOL-Library.Char_ord"
begin

section \<open>Voice identifier: strings and paths\<close>

text \<open>
  The program is a single script, \<^verbatim>\<open>app.py\<close>. Python strings are modelled as
  \<^typ>\<open>string\<close>, file contents as strings of bytes. The library functions the script
  calls on strings and paths are written out for POSIX, where \<^verbatim>\<open>os.path\<close> is
  \<^verbatim>\<open>posixpath\<close> and \<^verbatim>\<open>Path\<close> is \<^verbatim>\<open>PosixPath\<close>.
\<close>

definition lower_char :: "char \<Rightarrow> char" where
  "lower_char c =
     (case map_of (zip ''ABCDEFGHIJKLMNOPQRSTUVWXYZ'' ''abcdefghijklmnopqrstuvwxyz'') c of
        Some l \<Rightarrow> l | None \<Rightarrow> c)"

definition lower :: "string \<Rightarrow> string" where
  \<comment> \<open>\<^verbatim>\<open>str.lower\<close> on the ASCII letters\<close>
  "lower s = map lower_char s"

definition endswith :: "string \<Rightarrow> string \<Rightarrow> bool" where
  "endswith s e = (length e \<le> length s \<and> drop (length s - length e) s = e)"

definition startswith :: "string \<Rightarrow> string \<Rightarrow> bool" where
  "startswith s pre = (take (length pre) s = pre)"

definition DB_FILE :: string where
  "DB_FILE = ''voice_data.db''"

definition UPLOAD_DIR :: string where
  "UPLOAD_DIR = ''uploads''"

definition ALLOWED_AUDIO_EXTS :: "string list" where
  "ALLOWED_AUDIO_EXTS = [''.wav'', ''.mp3'', ''.ogg'', ''.flac'', ''.m4a'', ''.wav'']"

definition has_audio_ext :: "string \<Rightarrow> bool" where
  \<comment> \<open>\<^verbatim>\<open>any(lower.endswith(ext) for ext in ALLOWED_AUDIO_EXTS)\<close>, on the lowered name\<close>
  "has_audio_ext lowered = list_ex (\<lambda>ext. endswith lowered ext) ALLOWED_AUDIO_EXTS"

fun split_on :: "char \<Rightarrow> string \<Rightarrow> string list" where
  "split_on c [] = [[]]"
| "split_on c (x # xs) =
     (if x = c then [] # split_on c xs
      else (case split_on c xs of w # ws \<Rightarrow> (x # w) # ws | [] \<Rightarrow> [[x]]))"

fun join_slash :: "string list \<Rightarrow> string" where
  "join_slash [] = []"
| "join_slash [x] = x"
| "join_slash (x # y # ys) = x @ ''/'' @ join_slash (y # ys)"

definition basename :: "string \<Rightarrow> string" where
  \<comment> \<open>\<^verbatim>\<open>os.path.basename\<close>: what follows the last slash\<close>
  "basename p = rev (takeWhile (\<lambda>c. c \<noteq> CHR ''/'') (rev p))"

definition os_path_join :: "string \<Rightarrow> string \<Rightarrow> string" where
  "os_path_join a b =
     (if startswith b ''/'' then b
      else if a = [] \<or> endswith a ''/'' then a @ b
      else a @ ''/'' @ b)"

text \<open>
  A \<^verbatim>\<open>pathlib\<close> path is its root (\<^verbatim>\<open>''\<close>, \<^verbatim>\<open>'/'\<close> or \<^verbatim>\<open>'//'\<close>) and its parts; parsing
  drops empty components and \<^verbatim>\<open>'.'\<close> components and keeps \<^verbatim>\<open>'..'\<close>.
\<close>

type_synonym pure_path = "string \<times> string list"

definition path_root :: "string \<Rightarrow> string" where
  "path_root s =
     (if startswith s ''//'' \<and> \<not> startswith s ''///'' then ''//''
      else if startswith s ''/'' then ''/''
      else [])"

definition Path :: "string \<Rightarrow> pure_path" where
  "Path s = (path_root s, filter (\<lambda>c. c \<noteq> [] \<and> c \<noteq> ''.'') (split_on CHR ''/'' s))"

definition path_str :: "pure_path \<Rightarrow> string" where
  "path_str p =
     (case snd p of
        [] \<Rightarrow> (if fst p = [] then ''.'' else fst p)
      | _ # _ \<Rightarrow> fst p @ join_slash (snd p))"

definition path_name :: "pure_path \<Rightarrow> string" where
  "path_name p = (case snd p of [] \<Rightarrow> [] | _ # _ \<Rightarrow> last (snd p))"

definition path_parent :: "pure_path \<Rightarrow> pure_path" where
  "path_parent p = (fst p, butlast (snd p))"

definition path_child :: "pure_path \<Rightarrow> string \<Rightarrow> pure_path" where
  \<comment> \<open>\<^verbatim>\<open>parent / name\<close> for a name that is one component\<close>
  "path_child p name = (fst p, snd p @ [name])"

definition rfind_dot :: "string \<Rightarrow> nat option" where
  \<comment> \<open>\<^verbatim>\<open>name.rfind('.')\<close>, \<open>None\<close> for -1\<close>
  "rfind_dot name =
     (if CHR ''.'' \<in> set name
      then Some (length name - 1 - length (takeWhile (\<lambda>c. c \<noteq> CHR ''.'') (rev name)))
      else None)"

definition path_suffix :: "pure_path \<Rightarrow> string" where
  "path_suffix p =
     (let name = path_name p in
      case rfind_dot name of
        None \<Rightarrow> []
      | Some i \<Rightarrow> if 0 < i \<and> i < length name - 1 then drop i name else [])"

definition path_stem :: "pure_path \<Rightarrow> string" where
  "path_stem p =
     (let name = path_name p in
      case rfind_dot name of
        None \<Rightarrow> name
      | Some i \<Rightarrow> if 0 < i \<and> i < length name - 1 then take i name else name)"

text \<open>Decimal formatting of the counter in \<^verbatim>\<open>f"{stem}_{counter}{ext}"\<close>.\<close>

definition digit_char :: "nat \<Rightarrow> char" where
  "digit_char d = ''0123456789'' ! d"

fun str_nat :: "nat \<Rightarrow> string" where
  "str_nat n =
     (if n < 10 then [digit_char n] else str_nat (n div 10) @ [digit_char (n mod 10)])"

declare str_nat.simps [simp del]

definition numbered :: "pure_path \<Rightarrow> string \<Rightarrow> string \<Rightarrow> nat \<Rightarrow> pure_path" where
  \<comment> \<open>\<^verbatim>\<open>parent / f"{stem}_{counter}{ext}"\<close>\<close>
  "numbered parent stem ext counter = path_child parent (stem @ ''_'' @ str_nat counter @ ext)"

section \<open>The file system and the ingestion helpers\<close>

text \<open>
  The file system is a finite table from path strings, in the form \<^verbatim>\<open>pathlib\<close> prints
  them and relative to the working directory, to entries. Writing a file with
  \<^verbatim>\<open>open(p, "wb")\<close> replaces the entry at \<open>p\<close> or adds one.
\<close>

datatype entry = File string | Dir

type_synonym filesystem = "(string \<times> entry) list"

definition path_exists :: "filesystem \<Rightarrow> pure_path \<Rightarrow> bool" where
  "path_exists fs p = (map_of fs (path_str p) \<noteq> None)"

definition write_file :: "string \<Rightarrow> string \<Rightarrow> filesystem \<Rightarrow> filesystem" where
  "write_file p data fs = AList.update p (File data) fs"

definition os_remove :: "'e option \<Rightarrow> string \<Rightarrow> filesystem \<Rightarrow> filesystem" where
  \<comment> \<open>\<^verbatim>\<open>try: os.remove(p) except Exception: pass\<close>: \<open>Some e\<close> is \<^verbatim>\<open>os.remove\<close> raising
      \<open>e\<close>, which is swallowed; it also raises, and nothing changes, when \<open>p\<close> is no file\<close>
  "os_remove fault p fs =
     (case fault of
        Some e \<Rightarrow> fs
      | None \<Rightarrow> (case map_of fs p of Some (File _) \<Rightarrow> AList.delete p fs | _ \<Rightarrow> fs))"

subsection \<open>Collision-free names: \<^verbatim>\<open>unique_path\<close>\<close>

text \<open>The numbered names of one target are pairwise different, so only finitely many
  of them exist in a file system; the loop of \<^verbatim>\<open>unique_path\<close> therefore ends.\<close>

definition digit_val :: "char \<Rightarrow> nat" where
  "digit_val c = (of_char c :: nat) - 48"

definition nat_of_digits :: "string \<Rightarrow> nat" where
  "nat_of_digits s = foldl (\<lambda>a c. 10 * a + digit_val c) 0 s"

lemma digit_val_digit_char: "d < 10 \<Longrightarrow> digit_val (digit_char d) = d"
proof -
  assume "d < 10"
  then have "d \<in> {0, 1, 2, 3, 4, 5, 6, 7, 8, 9}" by auto
  then show ?thesis
    by (auto simp: digit_val_def digit_char_def)
qed

lemma nat_of_digits_str_nat: "nat_of_digits (str_nat n) = n"
proof (induction n rule: str_nat.induct)
  case (1 n)
  show ?case
  proof (cases "n < 10")
    case True
    then show ?thesis
      by (simp add: str_nat.simps [of n] nat_of_digits_def digit_val_digit_char)
  next
    case False
    with 1 have "nat_of_digits (str_nat (n div 10)) = n div 10" by simp
    with False show ?thesis
      by (simp add: str_nat.simps [of n] nat_of_digits_def digit_val_digit_char)
  qed
qed

lemma str_nat_inj: "str_nat m = str_nat n \<Longrightarrow> m = n"
  by (metis nat_of_digits_str_nat)

lemma join_slash_snoc:
  "join_slash (ps @ [n]) = concat (map (\<lambda>p. p @ ''/'') ps) @ n"
  by (induction ps rule: join_slash.induct) auto

lemma path_str_child:
  "path_str (path_child parent n) = fst parent @ concat (map (\<lambda>p. p @ ''/'') (snd parent)) @ n"
proof -
  have "path_str (path_child parent n) = fst parent @ join_slash (snd parent @ [n])"
    by (cases "snd parent") (simp_all add: path_str_def path_child_def)
  then show ?thesis
    by (simp only: join_slash_snoc)
qed

lemma numbered_inj: "inj (\<lambda>k. path_str (numbered parent stem ext k))"
  by (rule injI) (simp add: numbered_def path_str_child str_nat_inj)

lemma finite_numbered_existing:
  "finite {k. path_exists fs (numbered parent stem ext k)}"
proof -
  have "{k. path_exists fs (numbered parent stem ext k)}
        = (\<lambda>k. path_str (numbered parent stem ext k)) -` (fst ` set fs)"
    by (auto simp: path_exists_def map_of_eq_None_iff)
  then show ?thesis
    by (simp add: finite_vimageI numbered_inj)
qed

text \<open>
  \<^verbatim>\<open>
  counter = 1
  p = base
  while p.exists():
      p = parent / f"{stem}_{counter}{ext}"
      counter += 1
  return str(p)
  \<close>
\<close>

function unique_loop ::
  "filesystem \<Rightarrow> pure_path \<Rightarrow> string \<Rightarrow> string \<Rightarrow> pure_path \<Rightarrow> nat \<Rightarrow> pure_path"
where
  "unique_loop fs parent stem ext p counter =
     (if path_exists fs p
      then unique_loop fs parent stem ext (numbered parent stem ext counter) (counter + 1)
      else p)"
  by pat_completeness auto
termination
proof (relation "measure (\<lambda>(fs, parent, stem, ext, p, c).
          2 * card {k. c \<le> k \<and> path_exists fs (numbered parent stem ext k)}
          + (if path_exists fs p then 1 else 0))")
  show "wf (measure (\<lambda>(fs, parent, stem, ext, p, c).
          2 * card {k. c \<le> k \<and> path_exists fs (numbered parent stem ext k)}
          + (if path_exists fs p then 1 else 0)))"
    by simp
next
  fix fs :: filesystem and parent :: pure_path and stem ext :: string
    and p :: pure_path and counter :: nat
  assume ex: "path_exists fs p"
  let ?A = "\<lambda>c. {k. c \<le> k \<and> path_exists fs (numbered parent stem ext k)}"
  have fin: "finite (?A c)" for c
    by (rule finite_subset [OF _ finite_numbered_existing [of fs parent stem ext]]) auto
  show "((fs, parent, stem, ext, numbered parent stem ext counter, counter + 1),
         (fs, parent, stem, ext, p, counter)) \<in> measure (\<lambda>(fs, parent, stem, ext, p, c).
          2 * card {k. c \<le> k \<and> path_exists fs (numbered parent stem ext k)}
          + (if path_exists fs p then 1 else 0))"
  proof (cases "path_exists fs (numbered parent stem ext counter)")
    case True
    have "?A counter = insert counter (?A (counter + 1))"
      using True by (auto simp: le_Suc_eq)
    moreover have "counter \<notin> ?A (counter + 1)" by simp
    ultimately have "card (?A counter) = Suc (card (?A (counter + 1)))"
      using fin [of "counter + 1"] by simp
    with ex True show ?thesis by simp
  next
    case False
    have "?A counter = ?A (counter + 1)"
      using False by (auto simp: le_Suc_eq) (metis Suc_leI le_neq_implies_less)
    with ex False show ?thesis by simp
  qed
qed

declare unique_loop.simps [simp del]

definition unique_path :: "filesystem \<Rightarrow> string \<Rightarrow> string" where
  "unique_path fs target_path =
     (let base = Path target_path;
          parent = path_parent base;
          stem = path_stem base;
          ext = path_suffix base
      in path_str (unique_loop fs parent stem ext base 1))"

text \<open>
  \<^verbatim>\<open>save_uploaded_file\<close>: an uploaded file is its name and its bytes. The new file
  system is returned with the destination path.
\<close>

type_synonym uploaded_file = "string \<times> string"

definition save_uploaded_file ::
  "uploaded_file \<Rightarrow> string \<Rightarrow> filesystem \<Rightarrow> string \<times> filesystem"
where
  "save_uploaded_file uploaded dest_dir fs =
     (let safe_name = basename (fst uploaded);
          dest_path = os_path_join dest_dir safe_name;
          dest_path = unique_path fs dest_path
      in (dest_path, write_file dest_path (snd uploaded) fs))"

text \<open>
  \<^verbatim>\<open>extract_audio_from_zip\<close>: an open archive is its list of member names
  (\<^verbatim>\<open>z.namelist()\<close>) and its read function; \<^verbatim>\<open>z.read(member)\<close> either raises (\<open>Inl\<close>)
  or returns the bytes. The \<^verbatim>\<open>try\<close> block also holds \<^verbatim>\<open>unique_path\<close>, \<^verbatim>\<open>open\<close> and
  \<^verbatim>\<open>write\<close>, which the file system can refuse for a member (a name it does not accept,
  a full disk). \<open>store member\<close> says what goes wrong when the member is stored:
  \<open>Refused\<close> when \<^verbatim>\<open>unique_path\<close> or \<^verbatim>\<open>open\<close> raises, so that no file is made, and
  \<open>Truncated n\<close> when \<^verbatim>\<open>write\<close> raises after \<open>n\<close> bytes, so that the opened file stays
  with those bytes. In every case the \<^verbatim>\<open>except Exception: continue\<close> goes on with the
  next member, and only a member stored whole is appended to \<^verbatim>\<open>saved\<close>.
\<close>

datatype store_fault = Refused | Truncated nat

fun extract_members ::
  "(string \<Rightarrow> 'e + string) \<Rightarrow> (string \<Rightarrow> store_fault option) \<Rightarrow> string \<Rightarrow> string list
    \<Rightarrow> string list \<Rightarrow> filesystem \<Rightarrow> string list \<times> filesystem"
where
  "extract_members zread store dest_dir [] saved fs = (saved, fs)"
| "extract_members zread store dest_dir (member # members) saved fs =
     (if endswith member ''/'' \<or> startswith member ''__MACOSX/''
      then extract_members zread store dest_dir members saved fs
      else let name = basename member in
        if name = [] then extract_members zread store dest_dir members saved fs
        else let lowered = lower name in
          if has_audio_ext lowered then
            (case zread member of
               Inl e \<Rightarrow> extract_members zread store dest_dir members saved fs
             | Inr data \<Rightarrow>
                 (case store member of
                    Some Refused \<Rightarrow> extract_members zread store dest_dir members saved fs
                  | Some (Truncated n) \<Rightarrow>
                      let dest_path = os_path_join dest_dir name;
                          dest_path = unique_path fs dest_path;
                          fs' = write_file dest_path (take n data) fs
                      in extract_members zread store dest_dir members saved fs'
                  | None \<Rightarrow>
                      let dest_path = os_path_join dest_dir name;
                          dest_path = unique_path fs dest_path;
                          fs' = write_file dest_path data fs
                      in extract_members zread store dest_dir members (saved @ [dest_path]) fs'))
          else extract_members zread store dest_dir members saved fs)"

definition extract_audio_from_zip ::
  "string list \<times> (string \<Rightarrow> 'e + string) \<Rightarrow> (string \<Rightarrow> store_fault option) \<Rightarrow> string
    \<Rightarrow> filesystem \<Rightarrow> string list \<times> filesystem"
where
  "extract_audio_from_zip z store dest_dir fs = extract_members (snd z) store dest_dir (fst z) [] fs"

text \<open>
  For stating what extraction does: what becomes of a member (it is stored whole, it
  leaves a cut-off file, or it leaves nothing: skipped, unreadable or refused), the
  members stored whole with their bytes, and the saving of a list of files one after
  the other.
\<close>

definition wanted_member :: "string \<Rightarrow> bool" where
  "wanted_member member =
     (\<not> endswith member ''/'' \<and> \<not> startswith member ''__MACOSX/''
      \<and> has_audio_ext (lower (basename member)))"

datatype member_outcome = Stored string | Cut_off string | Nothing

definition outcome_of ::
  "(string \<Rightarrow> 'e + string) \<Rightarrow> (string \<Rightarrow> store_fault option) \<Rightarrow> string \<Rightarrow> member_outcome"
where
  "outcome_of zread store m =
     (if wanted_member m then
        (case zread m of
           Inl e \<Rightarrow> Nothing
         | Inr data \<Rightarrow>
             (case store m of
                None \<Rightarrow> Stored data
              | Some Refused \<Rightarrow> Nothing
              | Some (Truncated n) \<Rightarrow> Cut_off (take n data)))
      else Nothing)"

definition audio_entries ::
  "(string \<Rightarrow> 'e + string) \<Rightarrow> (string \<Rightarrow> store_fault option) \<Rightarrow> string list
    \<Rightarrow> uploaded_file list"
where
  "audio_entries zread store members =
     concat (map (\<lambda>m. case outcome_of zread store m of Stored data \<Rightarrow> [(m, data)] | _ \<Rightarrow> [])
               members)"

fun save_all :: "uploaded_file list \<Rightarrow> string \<Rightarrow> filesystem \<Rightarrow> string list \<times> filesystem" where
  "save_all [] dest_dir fs = ([], fs)"
| "save_all (up # ups) dest_dir fs =
     (let (dest_path, fs1) = save_uploaded_file up dest_dir fs;
          (rest, fs2) = save_all ups dest_dir fs1
      in (dest_path # rest, fs2))"

subsection \<open>Scanning the managed directory\<close>

text \<open>
  \<^verbatim>\<open>glob.glob(os.path.join(UPLOAD_DIR, f"**/*{ext}"), recursive=True)\<close>: the entries
  below \<^verbatim>\<open>uploads\<close>, any number of directories deep, whose last component matches
  \<^verbatim>\<open>*ext\<close>. On POSIX \<^verbatim>\<open>fnmatch\<close> compares case-sensitively, and neither \<^verbatim>\<open>*\<close> nor
  \<^verbatim>\<open>**\<close> matches a component that starts with a dot.
\<close>

definition glob_match :: "string \<Rightarrow> string \<Rightarrow> bool" where
  "glob_match ext p =
     (case split_on CHR ''/'' p of
        [] \<Rightarrow> False
      | d # rest \<Rightarrow>
          d = UPLOAD_DIR \<and> rest \<noteq> []
          \<and> list_all (\<lambda>c. c \<noteq> [] \<and> \<not> startswith c ''.'') rest
          \<and> endswith (last rest) ext)"

definition glob_uploads :: "filesystem \<Rightarrow> string \<Rightarrow> string list" where
  "glob_uploads fs ext = filter (glob_match ext) (map fst fs)"

text \<open>
  \<^verbatim>\<open>
  files = []
  for ext in ALLOWED_AUDIO_EXTS:
      files += glob.glob(...)
  files = sorted(list({os.path.abspath(f) for f in files}))
  \<close>
  \<^verbatim>\<open>os.path.abspath\<close> depends on the working directory and is a parameter.
\<close>

definition scan_uploads_for_audio :: "(string \<Rightarrow> string) \<Rightarrow> filesystem \<Rightarrow> string list" where
  "scan_uploads_for_audio abspath fs =
     sort (remdups (map abspath (concat (map (glob_uploads fs) ALLOWED_AUDIO_EXTS))))"

section \<open>The catalog\<close>

text \<open>
  The table \<^verbatim>\<open>voices (id INTEGER PRIMARY KEY AUTOINCREMENT, name TEXT NOT NULL,
  filename TEXT NOT NULL UNIQUE)\<close> with the counter SQLite keeps for
  \<^verbatim>\<open>AUTOINCREMENT\<close>. \<^verbatim>\<open>init_db\<close> creates the table when the database file has none.
\<close>

record voice_row =
  row_id :: nat
  row_name :: string
  row_filename :: string

record database =
  voices :: "voice_row list"
  sqlite_sequence :: nat

definition init_db :: "database option \<Rightarrow> database" where
  "init_db file = (case file of None \<Rightarrow> \<lparr>voices = [], sqlite_sequence = 0\<rparr> | Some db \<Rightarrow> db)"

definition file_registered_in_db :: "string \<Rightarrow> database \<Rightarrow> bool" where
  \<comment> \<open>\<^verbatim>\<open>SELECT 1 FROM voices WHERE filename = ?\<close>\<close>
  "file_registered_in_db file_path db = (file_path \<in> set (map row_filename (voices db)))"

definition insert_or_ignore :: "string \<Rightarrow> string \<Rightarrow> database \<Rightarrow> database" where
  \<comment> \<open>\<^verbatim>\<open>INSERT OR IGNORE INTO voices (name, filename) VALUES (?, ?)\<close>: a row whose
      filename is already there violates \<^verbatim>\<open>UNIQUE\<close> and is ignored. SQLite advances the
      \<^verbatim>\<open>AUTOINCREMENT\<close> counter for the ignored row as well.\<close>
  "insert_or_ignore name file_path db =
     (if file_path \<in> set (map row_filename (voices db))
      then db\<lparr>sqlite_sequence := sqlite_sequence db + 1\<rparr>
      else db\<lparr>voices := voices db @
                 [\<lparr>row_id = sqlite_sequence db + 1, row_name = name, row_filename = file_path\<rparr>],
              sqlite_sequence := sqlite_sequence db + 1\<rparr>)"

definition save_voice :: "'e option \<Rightarrow> string \<Rightarrow> string \<Rightarrow> database \<Rightarrow> database" where
  \<comment> \<open>\<open>Some e\<close>: \<^verbatim>\<open>c.execute\<close> or \<^verbatim>\<open>conn.commit\<close> raises \<open>e\<close>; the
      \<^verbatim>\<open>except Exception: pass\<close> swallows it and nothing is committed\<close>
  "save_voice fault name file_path db =
     (case fault of Some e \<Rightarrow> db | None \<Rightarrow> insert_or_ignore name file_path db)"

definition get_all_db_rows :: "database \<Rightarrow> (string \<times> string) list" where
  \<comment> \<open>\<^verbatim>\<open>SELECT name, filename FROM voices\<close>\<close>
  "get_all_db_rows db = map (\<lambda>r. (row_name r, row_filename r)) (voices db)"

text \<open>The \<^verbatim>\<open>UNIQUE\<close> constraint on \<^verbatim>\<open>filename\<close>, as an invariant of the table.\<close>

definition unique_filenames :: "database \<Rightarrow> bool" where
  "unique_filenames db = distinct (map row_filename (voices db))"

text \<open>
  \<^verbatim>\<open>
  def sync_uploads_to_db():
      files = scan_uploads_for_audio()
      count = 0
      for f in files:
          if not file_registered_in_db(f):
              name = Path(f).stem
              save_voice(name, f)
              count += 1
      return count
  \<close>
  \<open>insert_fault f\<close> is the fault, if any, of the insert for the file \<open>f\<close>.
\<close>

fun sync_files ::
  "(string \<Rightarrow> 'e option) \<Rightarrow> string list \<Rightarrow> nat \<Rightarrow> database \<Rightarrow> nat \<times> database"
where
  "sync_files insert_fault [] cnt db = (cnt, db)"
| "sync_files insert_fault (f # files) cnt db =
     (if \<not> file_registered_in_db f db
      then sync_files insert_fault files (cnt + 1)
             (save_voice (insert_fault f) (path_stem (Path f)) f db)
      else sync_files insert_fault files cnt db)"

definition sync_uploads_to_db ::
  "(string \<Rightarrow> 'e option) \<Rightarrow> (string \<Rightarrow> string) \<Rightarrow> filesystem \<Rightarrow> database \<Rightarrow> nat \<times> database"
where
  "sync_uploads_to_db insert_fault abspath fs db =
     sync_files insert_fault (scan_uploads_for_audio abspath fs) 0 db"

section \<open>Floats\<close>

text \<open>
  A Python or NumPy float is a finite number, an infinity or a NaN. The finite numbers
  are the reals: rounding and overflow of finite results are left out, what an
  infinity or a NaN does in an operation is written out. \<open>fle\<close>, \<open>flt\<close> and \<open>feq\<close> are
  Python's \<^verbatim>\<open><=\<close>, \<^verbatim>\<open><\<close> and \<^verbatim>\<open>==\<close>: every comparison with a NaN is false.
\<close>

datatype pyfloat = Finite real | PosInf | NegInf | NaN

fun fneg :: "pyfloat \<Rightarrow> pyfloat" where
  "fneg (Finite x) = Finite (- x)"
| "fneg PosInf = NegInf"
| "fneg NegInf = PosInf"
| "fneg NaN = NaN"

fun fadd :: "pyfloat \<Rightarrow> pyfloat \<Rightarrow> pyfloat" where
  "fadd (Finite x) (Finite y) = Finite (x + y)"
| "fadd NaN b = NaN"
| "fadd a NaN = NaN"
| "fadd PosInf NegInf = NaN"
| "fadd NegInf PosInf = NaN"
| "fadd PosInf b = PosInf"
| "fadd a PosInf = PosInf"
| "fadd NegInf b = NegInf"
| "fadd a NegInf = NegInf"

definition fsub :: "pyfloat \<Rightarrow> pyfloat \<Rightarrow> pyfloat" where
  "fsub a b = fadd a (fneg b)"

fun fsquare :: "pyfloat \<Rightarrow> pyfloat" where
  "fsquare (Finite x) = Finite (x ^ 2)"
| "fsquare PosInf = PosInf"
| "fsquare NegInf = PosInf"
| "fsquare NaN = NaN"

fun fsqrt :: "pyfloat \<Rightarrow> pyfloat" where
  "fsqrt (Finite x) = (if x < 0 then NaN else Finite (sqrt x))"
| "fsqrt PosInf = PosInf"
| "fsqrt NegInf = NaN"
| "fsqrt NaN = NaN"

fun fdiv_count :: "pyfloat \<Rightarrow> nat \<Rightarrow> pyfloat" where
  "fdiv_count (Finite x) n =
     (if n = 0 then (if x = 0 then NaN else if 0 < x then PosInf else NegInf)
      else Finite (x / real n))"
| "fdiv_count PosInf n = PosInf"
| "fdiv_count NegInf n = NegInf"
| "fdiv_count NaN n = NaN"

definition fsum :: "pyfloat list \<Rightarrow> pyfloat" where
  "fsum xs = foldl fadd (Finite 0) xs"

fun fle :: "pyfloat \<Rightarrow> pyfloat \<Rightarrow> bool" where
  "fle NaN b = False"
| "fle a NaN = False"
| "fle (Finite x) (Finite y) = (x \<le> y)"
| "fle NegInf b = True"
| "fle a PosInf = True"
| "fle PosInf b = False"
| "fle a NegInf = False"

fun flt :: "pyfloat \<Rightarrow> pyfloat \<Rightarrow> bool" where
  "flt NaN b = False"
| "flt a NaN = False"
| "flt (Finite x) (Finite y) = (x < y)"
| "flt PosInf b = False"
| "flt a NegInf = False"
| "flt NegInf b = True"
| "flt a PosInf = True"

definition feq :: "pyfloat \<Rightarrow> pyfloat \<Rightarrow> bool" where
  "feq a b = (a \<noteq> NaN \<and> b \<noteq> NaN \<and> a = b)"

fun is_finite :: "pyfloat \<Rightarrow> bool" where
  "is_finite (Finite x) = True"
| "is_finite PosInf = False"
| "is_finite NegInf = False"
| "is_finite NaN = False"

text \<open>\<^verbatim>\<open>==\<close> between two results of a comparison, each a float or \<^verbatim>\<open>None\<close>.\<close>

definition py_eq :: "pyfloat option \<Rightarrow> pyfloat option \<Rightarrow> bool" where
  "py_eq a b =
     (case (a, b) of
        (None, None) \<Rightarrow> True
      | (Some x, Some y) \<Rightarrow> feq x y
      | _ \<Rightarrow> False)"

subsection \<open>\<^verbatim>\<open>list.sort\<close>\<close>

text \<open>
  \<^verbatim>\<open>list.sort(key=...)\<close> compares keys with \<^verbatim>\<open><\<close> only. On a list of fewer than 64
  elements CPython takes the run the list starts with (non-descending, or strictly
  descending and then reversed) and inserts every later element by binary search,
  behind the elements it is not smaller than. Longer lists are merged from such runs,
  to the same result whenever \<^verbatim>\<open><\<close> is a consistent order on the keys.
\<close>

function bisect :: "('k \<Rightarrow> 'k \<Rightarrow> bool) \<Rightarrow> 'k \<Rightarrow> 'k list \<Rightarrow> nat \<Rightarrow> nat \<Rightarrow> nat" where
  "bisect lt pivot ks l r =
     (if l < r then
        (let p = l + (r - l) div 2
         in if lt pivot (ks ! p) then bisect lt pivot ks l p else bisect lt pivot ks (p + 1) r)
      else l)"
  by pat_completeness auto
termination
  by (relation "measure (\<lambda>(lt, pivot, ks, l, r). r - l)") auto

declare bisect.simps [simp del]

fun binarysort :: "('k \<Rightarrow> 'k \<Rightarrow> bool) \<Rightarrow> ('a \<Rightarrow> 'k) \<Rightarrow> 'a list \<Rightarrow> 'a list \<Rightarrow> 'a list" where
  "binarysort lt key run [] = run"
| "binarysort lt key run (x # xs) =
     (let l = bisect lt (key x) (map key run) 0 (length run)
      in binarysort lt key (take l run @ x # drop l run) xs)"

fun run_ascending :: "('k \<Rightarrow> 'k \<Rightarrow> bool) \<Rightarrow> ('a \<Rightarrow> 'k) \<Rightarrow> 'a \<Rightarrow> 'a list \<Rightarrow> 'a list \<times> 'a list" where
  "run_ascending lt key prev [] = ([], [])"
| "run_ascending lt key prev (x # xs) =
     (if lt (key x) (key prev) then ([], x # xs)
      else (let (run, rest) = run_ascending lt key x xs in (x # run, rest)))"

fun run_descending :: "('k \<Rightarrow> 'k \<Rightarrow> bool) \<Rightarrow> ('a \<Rightarrow> 'k) \<Rightarrow> 'a \<Rightarrow> 'a list \<Rightarrow> 'a list \<times> 'a list" where
  "run_descending lt key prev [] = ([], [])"
| "run_descending lt key prev (x # xs) =
     (if lt (key x) (key prev)
      then (let (run, rest) = run_descending lt key x xs in (x # run, rest))
      else ([], x # xs))"

fun list_sort :: "('k \<Rightarrow> 'k \<Rightarrow> bool) \<Rightarrow> ('a \<Rightarrow> 'k) \<Rightarrow> 'a list \<Rightarrow> 'a list" where
  "list_sort lt key [] = []"
| "list_sort lt key [x] = [x]"
| "list_sort lt key (x # y # zs) =
     (if lt (key y) (key x)
      then (let (run, rest) = run_descending lt key y zs
            in binarysort lt key (rev (x # y # run)) rest)
      else (let (run, rest) = run_ascending lt key y zs
            in binarysort lt key (x # y # run) rest))"

section \<open>Fingerprints and comparison\<close>

text \<open>
  \<^verbatim>\<open>librosa.load\<close> and \<^verbatim>\<open>librosa.feature.mfcc\<close> are parameters; each either raises
  (\<open>Inl\<close>) or returns. A decoded signal is its samples and its sample rate, an MFCC
  matrix the list of its rows, one row of frames per coefficient. \<^verbatim>\<open>np.mean\<close> of a
  row is its sum divided by the number of its frames, NaN for a row without frames.
\<close>

definition np_mean_axis1 :: "pyfloat list list \<Rightarrow> pyfloat list" where
  "np_mean_axis1 m = map (\<lambda>row. fdiv_count (fsum row) (length row)) m"

definition load_mfcc_mean ::
  "(string \<Rightarrow> 'e + pyfloat list \<times> nat) \<Rightarrow> (pyfloat list \<Rightarrow> nat \<Rightarrow> nat \<Rightarrow> 'e + pyfloat list list)
    \<Rightarrow> string \<Rightarrow> nat \<Rightarrow> pyfloat list option"
where
  "load_mfcc_mean load mfcc path n_mfcc =
     (case load path of
        Inl e \<Rightarrow> None
      | Inr (y, sr) \<Rightarrow>
          if length y < 10 then None
          else (case mfcc y sr n_mfcc of
                  Inl e \<Rightarrow> None
                | Inr m \<Rightarrow> Some (np_mean_axis1 m)))"

text \<open>\<^verbatim>\<open>v1 - v2\<close> on one-dimensional arrays: elementwise on equal shapes, a
  one-element array is broadcast, any other pair of shapes raises.\<close>

definition np_subtract :: "pyfloat list \<Rightarrow> pyfloat list \<Rightarrow> pyfloat list option" where
  "np_subtract v1 v2 =
     (if length v1 = length v2 then Some (map2 fsub v1 v2)
      else if length v1 = 1 then Some (map (\<lambda>b. fsub (hd v1) b) v2)
      else if length v2 = 1 then Some (map (\<lambda>a. fsub a (hd v2)) v1)
      else None)"

definition np_linalg_norm :: "pyfloat list \<Rightarrow> pyfloat" where
  "np_linalg_norm v = fsqrt (fsum (map fsquare v))"

definition compare_voice ::
  "(string \<Rightarrow> 'e + pyfloat list \<times> nat) \<Rightarrow> (pyfloat list \<Rightarrow> nat \<Rightarrow> nat \<Rightarrow> 'e + pyfloat list list)
    \<Rightarrow> string \<Rightarrow> string \<Rightarrow> pyfloat option"
where
  "compare_voice load mfcc query_path candidate_path =
     (let v1 = load_mfcc_mean load mfcc query_path 20;
          v2 = load_mfcc_mean load mfcc candidate_path 20
      in case (v1, v2) of
           (Some a, Some b) \<Rightarrow>
             (case np_subtract a b of None \<Rightarrow> None | Some d \<Rightarrow> Some (np_linalg_norm d))
         | _ \<Rightarrow> None)"

section \<open>Match engine (the Find Data branch)\<close>

text \<open>
  A candidate is the pair \<^verbatim>\<open>(name, path)\<close> the script iterates over; a result is the
  triple \<^verbatim>\<open>(name, path, dist)\<close> it appends to \<^verbatim>\<open>results\<close>. A distance is a float; the
  code tests it against \<^verbatim>\<open>None\<close> only, so a NaN is a result like any other.
\<close>

type_synonym candidate = "string \<times> string"

type_synonym 'd result = "string \<times> string \<times> 'd"

definition dist_of :: "'d result \<Rightarrow> 'd" where
  "dist_of r = snd (snd r)"

text \<open>
  \<^verbatim>\<open>
  results = []
  for name, path in candidates:
      dist = compare_voice(query_path, path)
      if dist is not None:
          results.append((name, path, dist))
  \<close>
\<close>

fun collect_results ::
  "(string \<Rightarrow> string \<Rightarrow> 'd option) \<Rightarrow> string \<Rightarrow> candidate list \<Rightarrow> 'd result list \<Rightarrow> 'd result list"
where
  "collect_results cmp query_path [] results = results"
| "collect_results cmp query_path ((name, path) # cs) results =
     (case cmp query_path path of
        None \<Rightarrow> collect_results cmp query_path cs results
      | Some d \<Rightarrow> collect_results cmp query_path cs (results @ [(name, path, d)]))"

text \<open>
  \<^verbatim>\<open>
  results.sort(key=lambda x: x[2])
  if results:
      accepted = [r for r in results if r[2] <= threshold]
      shown = accepted[:top_k] if accepted else results[:top_k]
  \<close>
  \<open>top_k\<close> comes from a slider over 1..10, so it is a natural number and the slice is
  \<^const>\<open>take\<close>. When \<open>results\<close> is empty nothing is shown.
\<close>

definition select_shown :: "pyfloat result list \<Rightarrow> pyfloat \<Rightarrow> nat \<Rightarrow> pyfloat result list" where
  "select_shown results threshold top_k =
     (let accepted = filter (\<lambda>r. fle (dist_of r) threshold) results
      in if accepted \<noteq> [] then take top_k accepted else take top_k results)"

definition rank ::
  "(string \<Rightarrow> string \<Rightarrow> pyfloat option) \<Rightarrow> string \<Rightarrow> candidate list \<Rightarrow> pyfloat \<Rightarrow> nat
    \<Rightarrow> pyfloat result list"
where
  "rank cmp query_path candidates threshold top_k =
     (let results = list_sort flt dist_of (collect_results cmp query_path candidates [])
      in if results \<noteq> [] then select_shown results threshold top_k else [])"

text \<open>The valid comparisons of a candidate list, in candidate order: every candidate
  whose comparison is not \<open>None\<close>, with its distance.\<close>

definition valid_comparisons ::
  "(string \<Rightarrow> string \<Rightarrow> 'd option) \<Rightarrow> string \<Rightarrow> candidate list \<Rightarrow> 'd result list"
where
  "valid_comparisons cmp query_path candidates =
     concat (map (\<lambda>(name, path). case cmp query_path path of
                                   None \<Rightarrow> [] | Some d \<Rightarrow> [(name, path, d)]) candidates)"

text \<open>
  The candidate set. A Python \<^verbatim>\<open>dict\<close> built from pairs keeps a key at the position
  of its first insertion and the value of its last, as \<^const>\<open>AList.update\<close> does.
  \<^verbatim>\<open>
  candidates = []
  if match_mode in ("Database", "Both"):
      candidates.extend(get_all_db_rows())
  if match_mode in ("Uploads folder", "Both"):
      files = scan_uploads_for_audio()
      folder_rows = [(Path(f).stem, f) for f in files]
      combined = {os.path.abspath(path): name for name, path in (candidates + folder_rows)}
      candidates = [(n, p) for p, n in combined.items()]
  \<close>
\<close>

datatype match_mode = Database | Uploads_folder | Both

definition dict_of_pairs :: "('k \<times> 'v) list \<Rightarrow> ('k \<times> 'v) list" where
  "dict_of_pairs kvs = foldl (\<lambda>d (k, v). AList.update k v d) [] kvs"

definition match_candidates ::
  "(string \<Rightarrow> string) \<Rightarrow> database \<Rightarrow> filesystem \<Rightarrow> match_mode \<Rightarrow> candidate list"
where
  "match_candidates abspath db fs match_mode =
     (let candidates =
            (if match_mode = Database \<or> match_mode = Both then get_all_db_rows db else [])
      in if match_mode = Uploads_folder \<or> match_mode = Both then
           (let files = scan_uploads_for_audio abspath fs;
                folder_rows = map (\<lambda>f. (path_stem (Path f), f)) files;
                combined = dict_of_pairs
                  (map (\<lambda>(name, path). (abspath path, name)) (candidates @ folder_rows))
            in map (\<lambda>(p, n). (n, p)) combined)
         else candidates)"

text \<open>
  The whole branch behind the Match button: the query is saved into the managed
  directory, compared with the candidates, and removed at the end. The removal is the
  last statement of the branch and stands in no \<^verbatim>\<open>finally\<close>: an exception that escapes
  from the statements before it ends the branch there. Three places can raise:
  \<^verbatim>\<open>get_all_db_rows\<close> (an error of SQLite, \<open>db_fault\<close>), a call of the presentation
  layer that shows the outcome (the control exception by which Streamlit stops or
  reruns a script, \<open>ui_fault\<close>), and \<^verbatim>\<open>os.remove\<close> itself (\<open>remove_fault\<close>, swallowed). What
  the branch shows, or the exception that leaves it, is returned with the file system
  after the branch.
\<close>

datatype outcome =
  No_query_file | No_candidates | No_valid_comparisons | Shown "pyfloat result list"

definition find_data_match ::
  "(filesystem \<Rightarrow> string \<Rightarrow> 'e + pyfloat list \<times> nat)
    \<Rightarrow> (pyfloat list \<Rightarrow> nat \<Rightarrow> nat \<Rightarrow> 'e + pyfloat list list)
    \<Rightarrow> (string \<Rightarrow> string) \<Rightarrow> 'e option \<Rightarrow> 'e option \<Rightarrow> 'e option \<Rightarrow> database \<Rightarrow> filesystem
    \<Rightarrow> uploaded_file option \<Rightarrow> match_mode \<Rightarrow> nat \<Rightarrow> pyfloat \<Rightarrow> ('e + outcome) \<times> filesystem"
where
  "find_data_match load mfcc abspath db_fault ui_fault remove_fault db fs
       uploaded_voice match_mode top_k threshold =
     (case uploaded_voice of
        None \<Rightarrow> (Inr No_query_file, fs)
      | Some up \<Rightarrow>
          (let (query_path, fs1) = save_uploaded_file up UPLOAD_DIR fs
           in case (if match_mode = Database \<or> match_mode = Both then db_fault else None) of
                Some e \<Rightarrow> (Inl e, fs1)
              | None \<Rightarrow>
                  (let candidates = match_candidates abspath db fs1 match_mode;
                       out =
                         (if candidates = [] then No_candidates
                          else (let results = list_sort flt dist_of
                                      (collect_results (compare_voice (load fs1) mfcc)
                                         query_path candidates [])
                                in if results \<noteq> []
                                   then Shown (select_shown results threshold top_k)
                                   else No_valid_comparisons))
                   in case (if out = Shown [] then None else ui_fault) of
                        Some e \<Rightarrow> (Inl e, fs1)
                      | None \<Rightarrow> (Inr out, os_remove remove_fault query_path fs1))))"

section \<open>Concrete data\<close>

text \<open>A concrete comparison and candidate list, used to exercise the ranking.\<close>

definition demo_cmp :: "string \<Rightarrow> string \<Rightarrow> pyfloat option" where
  "demo_cmp q p = (if p = ''/u/bad.wav'' then None else Some (Finite (real (length p))))"

definition demo_candidates :: "candidate list" where
  "demo_candidates =
     [(''ann'', ''/u/ann.wav''), (''bad'', ''/u/bad.wav''), (''al'', ''/u/al.wav'')]"

text \<open>A decoder and a feature function. One file does not decode, one has nine
  samples and one ten, one has a sample rate the feature function rejects, and one is
  so loud that its feature matrix has overflowed to infinities of both signs; every
  other path is a signal of twelve samples.\<close>

definition demo_load :: "string \<Rightarrow> string + pyfloat list \<times> nat" where
  "demo_load p =
     (if p = ''/u/bad.wav'' then Inl ''no backend could decode the file''
      else if p = ''/u/click.wav'' then Inr (replicate 9 (Finite 1), 8000)
      else if p = ''/u/ten.wav'' then Inr (replicate 10 (Finite 1), 8000)
      else if p = ''/u/odd.wav'' then Inr (replicate 12 (Finite 1), 0)
      else if p = ''/u/loud.wav'' then Inr (replicate 12 (Finite 1), 96000)
      else Inr (Finite (real (length p)) # replicate 11 (Finite 0), 16000))"

definition demo_mfcc :: "pyfloat list \<Rightarrow> nat \<Rightarrow> nat \<Rightarrow> string + pyfloat list list" where
  "demo_mfcc y sr n =
     (if sr = 0 then Inl ''sr must be positive''
      else if sr = 96000 then Inr (replicate n [PosInf, NegInf])
      else Inr (replicate n [hd y, fadd (hd y) (Finite 2)]))"

definition nan_candidates :: "candidate list" where
  "nan_candidates =
     [(''ann'', ''/u/ann.wav''), (''loud'', ''/u/loud.wav''), (''al'', ''/u/al.wav'')]"

text \<open>A working directory \<^verbatim>\<open>/srv\<close>, a managed directory and a catalog.\<close>

definition demo_abspath :: "string \<Rightarrow> string" where
  "demo_abspath p = (if startswith p ''/'' then p else ''/srv/'' @ p)"

definition demo_fs :: filesystem where
  "demo_fs =
     [(''uploads'', Dir), (''uploads/a.wav'', File ''RIFF-a''), (''uploads/A.WAV'', File ''RIFF-A''),
      (''uploads/sub'', Dir), (''uploads/sub/b.mp3'', File ''ID3-b'')]"

definition demo_db :: database where
  "demo_db =
     \<lparr>voices = [\<lparr>row_id = 1, row_name = ''Alice'', row_filename = ''/srv/uploads/a.wav''\<rparr>,
                \<lparr>row_id = 2, row_name = ''Old'', row_filename = ''/srv/uploads/gone.wav''\<rparr>],
      sqlite_sequence = 2\<rparr>"

text \<open>A managed directory in which \<^verbatim>\<open>alice.wav\<close> was uploaded twice already.\<close>

definition demo_uploads :: filesystem where
  "demo_uploads =
     [(''uploads'', Dir), (''uploads/alice.wav'', File ''RIFF-1''),
      (''uploads/alice_1.wav'', File ''RIFF-2'')]"

text \<open>An archive with a directory entry, a text file, a macOS metadata entry, an
  entry that fails its checksum, an entry whose name the file system refuses, an entry
  during whose write the disk runs full, and two entries of the same base name.\<close>

definition demo_zip :: "string list \<times> (string \<Rightarrow> string + string)" where
  "demo_zip =
     ([''bob.mp3'', ''readme.txt'', ''data/'', ''__MACOSX/._bob.mp3'', ''data/Eve.WAV'',
       ''data/bad.wav'', ''data/refused.ogg'', ''data/huge.flac'', ''x/bob.mp3''],
      \<lambda>m. if m = ''data/bad.wav'' then Inl ''Bad CRC-32'' else Inr (''bytes of '' @ m))"

definition demo_store :: "string \<Rightarrow> store_fault option" where
  "demo_store m =
     (if m = ''data/refused.ogg'' then Some Refused
      else if m = ''data/huge.flac'' then Some (Truncated 5)
      else None)"

definition no_store_fault :: "string \<Rightarrow> store_fault option" where
  "no_store_fault m = None"

definition no_insert_fault :: "string \<Rightarrow> string option" where
  "no_insert_fault f = None"

text \<open>A decoder that reads the file system: a file decodes when its bytes start with
  \<^verbatim>\<open>RIFF\<close>. Two catalogs, one whose only row points to a file that is gone.\<close>

definition demo_read :: "filesystem \<Rightarrow> string \<Rightarrow> string + pyfloat list \<times> nat" where
  "demo_read fs p =
     (case map_of fs (if startswith p ''/srv/'' then drop 5 p else p) of
        Some (File bytes) \<Rightarrow>
          if startswith bytes ''RIFF''
          then Inr (Finite (real (length bytes)) # replicate 11 (Finite 0), 16000)
          else Inl ''Format not recognised''
      | _ \<Rightarrow> Inl ''No such file'')"

definition demo_catalog :: database where
  "demo_catalog =
     \<lparr>voices = [\<lparr>row_id = 1, row_name = ''Alice'', row_filename = ''/srv/uploads/alice.wav''\<rparr>],
      sqlite_sequence = 1\<rparr>"

definition demo_stale_catalog :: database where
  "demo_stale_catalog =
     \<lparr>voices = [\<lparr>row_id = 1, row_name = ''Old'', row_filename = ''/srv/uploads/gone.wav''\<rparr>],
      sqlite_sequence = 1\<rparr>"

section \<open>Properties of extraction and comparison\<close>

lemma foldl_fadd_Finite: "foldl fadd (Finite a) (map Finite xs) = Finite (a + sum_list xs)"
  by (induction xs arbitrary: a) (simp_all add: add.assoc)

lemma fsum_Finite: "fsum (map Finite xs) = Finite (sum_list xs)"
  by (simp add: fsum_def foldl_fadd_Finite)

lemma finite_vectorE:
  assumes "list_all is_finite v"
  obtains xs where "v = map Finite xs"
proof -
  have "\<exists>xs. v = map Finite xs"
    using assms
  proof (induction v)
    case Nil
    then show ?case by simp
  next
    case (Cons a v)
    then obtain xs where "v = map Finite xs" by auto
    moreover from Cons.prems obtain x where "a = Finite x" by (cases a) auto
    ultimately have "a # v = map Finite (x # xs)" by simp
    then show ?case by (rule exI)
  qed
  with that show thesis by blast
qed

lemma load_mfcc_mean_absent_decode:
  "load path = Inl e \<Longrightarrow> load_mfcc_mean load mfcc path n = None"
  by (simp add: load_mfcc_mean_def)

lemma load_mfcc_mean_absent_short:
  "load path = Inr (y, sr) \<Longrightarrow> length y < 10 \<Longrightarrow> load_mfcc_mean load mfcc path n = None"
  by (simp add: load_mfcc_mean_def)

lemma load_mfcc_mean_absent_mfcc:
  "load path = Inr (y, sr) \<Longrightarrow> mfcc y sr n = Inl e \<Longrightarrow> load_mfcc_mean load mfcc path n = None"
  by (simp add: load_mfcc_mean_def)

lemma load_mfcc_mean_present:
  "load path = Inr (y, sr) \<Longrightarrow> 10 \<le> length y \<Longrightarrow> mfcc y sr n = Inr m
     \<Longrightarrow> load_mfcc_mean load mfcc path n = Some (np_mean_axis1 m)"
  by (simp add: load_mfcc_mean_def)

lemma load_mfcc_mean_SomeD:
  assumes "load_mfcc_mean load mfcc path n = Some v"
  shows "\<exists>y sr m. load path = Inr (y, sr) \<and> 10 \<le> length y \<and> mfcc y sr n = Inr m
           \<and> v = np_mean_axis1 m"
  using assms
  by (auto simp: load_mfcc_mean_def split: sum.splits if_splits)

lemma np_mean_axis1_nth:
  "i < length m \<Longrightarrow> np_mean_axis1 m ! i = fdiv_count (fsum (m ! i)) (length (m ! i))"
  by (simp add: np_mean_axis1_def)

lemma mean_of_finite_row:
  "xs \<noteq> [] \<Longrightarrow> fdiv_count (fsum (map Finite xs)) (length (map Finite xs))
     = Finite (sum_list xs / real (length xs))"
  by (simp add: fsum_Finite)

text \<open>
  Claim C4. The extraction \<^verbatim>\<open>load_mfcc_mean(path)\<close>, with its default of 20
  coefficients, is absent and raises nothing when decoding raises, when the decoded
  signal has fewer than 10 samples, and when the feature computation raises. A signal
  of 10 samples or more whose feature matrix is computed does give a fingerprint: one
  entry per row of the matrix \<^verbatim>\<open>mfcc(y, sr, 20)\<close>, the sum of the row divided by the number
  of its frames and nothing else, which for a row of finite numbers is their mean.
  A fingerprint is returned in no other case.
\<close>

theorem load_mfcc_mean_spec:
  "((\<exists>e. load path = Inl e) \<longrightarrow> load_mfcc_mean load mfcc path 20 = None)
   \<and> (\<forall>y sr. load path = Inr (y, sr) \<and> length y < 10 \<longrightarrow>
          load_mfcc_mean load mfcc path 20 = None)
   \<and> (\<forall>y sr e. load path = Inr (y, sr) \<and> mfcc y sr 20 = Inl e \<longrightarrow>
          load_mfcc_mean load mfcc path 20 = None)
   \<and> (\<forall>y sr m. load path = Inr (y, sr) \<and> 10 \<le> length y \<and> mfcc y sr 20 = Inr m \<longrightarrow>
          (\<exists>v. load_mfcc_mean load mfcc path 20 = Some v
             \<and> length v = length m
             \<and> (\<forall>i < length m. v ! i = fdiv_count (fsum (m ! i)) (length (m ! i)))
             \<and> (\<forall>i < length m. \<forall>xs. m ! i = map Finite xs \<and> xs \<noteq> [] \<longrightarrow>
                  v ! i = Finite (sum_list xs / real (length xs)))))
   \<and> (\<forall>v. load_mfcc_mean load mfcc path 20 = Some v \<longrightarrow>
          (\<exists>y sr m. load path = Inr (y, sr) \<and> 10 \<le> length y \<and> mfcc y sr 20 = Inr m))"
proof (intro conjI allI impI)
  assume "\<exists>e. load path = Inl e"
  then show "load_mfcc_mean load mfcc path 20 = None"
    by (auto simp: load_mfcc_mean_absent_decode)
next
  fix y sr
  assume "load path = Inr (y, sr) \<and> length y < 10"
  then show "load_mfcc_mean load mfcc path 20 = None"
    by (simp add: load_mfcc_mean_absent_short)
next
  fix y sr e
  assume "load path = Inr (y, sr) \<and> mfcc y sr 20 = Inl e"
  then show "load_mfcc_mean load mfcc path 20 = None"
    by (simp add: load_mfcc_mean_absent_mfcc)
next
  fix y sr m
  assume a: "load path = Inr (y, sr) \<and> 10 \<le> length y \<and> mfcc y sr 20 = Inr m"
  then have v: "load_mfcc_mean load mfcc path 20 = Some (np_mean_axis1 m)"
    by (simp add: load_mfcc_mean_present)
  have len: "length (np_mean_axis1 m) = length m"
    by (simp add: np_mean_axis1_def)
  have mean: "\<forall>i < length m. np_mean_axis1 m ! i = fdiv_count (fsum (m ! i)) (length (m ! i))"
    by (simp add: np_mean_axis1_nth)
  have fin: "\<forall>i < length m. \<forall>xs. m ! i = map Finite xs \<and> xs \<noteq> [] \<longrightarrow>
                  np_mean_axis1 m ! i = Finite (sum_list xs / real (length xs))"
    using mean_of_finite_row by (auto simp: np_mean_axis1_nth)
  from v len mean fin
  show "\<exists>v. load_mfcc_mean load mfcc path 20 = Some v
             \<and> length v = length m
             \<and> (\<forall>i < length m. v ! i = fdiv_count (fsum (m ! i)) (length (m ! i)))
             \<and> (\<forall>i < length m. \<forall>xs. m ! i = map Finite xs \<and> xs \<noteq> [] \<longrightarrow>
                  v ! i = Finite (sum_list xs / real (length xs)))"
    by blast
next
  fix v
  assume "load_mfcc_mean load mfcc path 20 = Some v"
  then show "\<exists>y sr m. load path = Inr (y, sr) \<and> 10 \<le> length y \<and> mfcc y sr 20 = Inr m"
    using load_mfcc_mean_SomeD by blast
qed

lemma demo_fingerprint:
  "p \<notin> {''/u/bad.wav'', ''/u/click.wav'', ''/u/ten.wav'', ''/u/odd.wav'', ''/u/loud.wav''} \<Longrightarrow>
     load_mfcc_mean demo_load demo_mfcc p 20 = Some (replicate 20 (Finite (real (length p) + 1)))"
  by (simp add: load_mfcc_mean_def demo_load_def demo_mfcc_def np_mean_axis1_def fsum_def)

lemma demo_special_fingerprints:
  "load_mfcc_mean demo_load demo_mfcc ''/u/bad.wav'' 20 = None"
  "load_mfcc_mean demo_load demo_mfcc ''/u/click.wav'' 20 = None"
  "load_mfcc_mean demo_load demo_mfcc ''/u/odd.wav'' 20 = None"
  "load_mfcc_mean demo_load demo_mfcc ''/u/ten.wav'' 20 = Some (replicate 20 (Finite 2))"
  "load_mfcc_mean demo_load demo_mfcc ''/u/loud.wav'' 20 = Some (replicate 20 NaN)"
  by (simp_all add: load_mfcc_mean_def demo_load_def demo_mfcc_def np_mean_axis1_def fsum_def)

theorem load_mfcc_mean_spec_witness:
  "demo_load ''/u/bad.wav'' = Inl ''no backend could decode the file''
   \<and> load_mfcc_mean demo_load demo_mfcc ''/u/bad.wav'' 20 = None
   \<and> demo_load ''/u/click.wav'' = Inr (replicate 9 (Finite 1), 8000)
   \<and> load_mfcc_mean demo_load demo_mfcc ''/u/click.wav'' 20 = None
   \<and> demo_load ''/u/odd.wav'' = Inr (replicate 12 (Finite 1), 0)
   \<and> demo_mfcc (replicate 12 (Finite 1)) 0 20 = Inl ''sr must be positive''
   \<and> load_mfcc_mean demo_load demo_mfcc ''/u/odd.wav'' 20 = None
   \<and> demo_load ''/u/ten.wav'' = Inr (replicate 10 (Finite 1), 8000)
   \<and> demo_mfcc (replicate 10 (Finite 1)) 8000 20 = Inr (replicate 20 (map Finite [1, 3]))
   \<and> load_mfcc_mean demo_load demo_mfcc ''/u/ten.wav'' 20 = Some (replicate 20 (Finite 2))
   \<and> replicate 20 (Finite 2) ! 7 = Finite (sum_list [1, 3] / real (length [1::real, 3]))"
  using load_mfcc_mean_spec [of demo_load "''/u/bad.wav''" demo_mfcc]
    load_mfcc_mean_spec [of demo_load "''/u/click.wav''" demo_mfcc]
    load_mfcc_mean_spec [of demo_load "''/u/odd.wav''" demo_mfcc]
    load_mfcc_mean_spec [of demo_load "''/u/ten.wav''" demo_mfcc]
  by (simp add: demo_special_fingerprints) (simp add: demo_load_def demo_mfcc_def)


lemma fsquare_fsub_commute: "fsquare (fsub a b) = fsquare (fsub b a)"
  by (cases a; cases b) (simp_all add: fsub_def power2_commute)

lemma squares_map2_commute:
  "map fsquare (map2 fsub a b) = map fsquare (map2 fsub b a)"
proof (induction a arbitrary: b)
  case Nil
  then show ?case by simp
next
  case (Cons x a)
  then show ?case
    by (cases b) (simp_all add: fsquare_fsub_commute)
qed

lemma norm_map2_sym: "np_linalg_norm (map2 fsub a b) = np_linalg_norm (map2 fsub b a)"
  unfolding np_linalg_norm_def squares_map2_commute [of a b] by (rule refl)

lemma norm_broadcast_sym:
  "np_linalg_norm (map (\<lambda>b. fsub c b) v) = np_linalg_norm (map (\<lambda>a. fsub a c) v)"
  by (simp add: np_linalg_norm_def comp_def fsquare_fsub_commute [of c])

lemma np_subtract_norm_sym:
  "map_option np_linalg_norm (np_subtract a b) = map_option np_linalg_norm (np_subtract b a)"
proof -
  consider "length a = length b" | "length a \<noteq> length b" "length a = 1"
    | "length a \<noteq> length b" "length a \<noteq> 1" "length b = 1"
    | "length a \<noteq> length b" "length a \<noteq> 1" "length b \<noteq> 1"
    by blast
  then show ?thesis
  proof cases
    case 1
    then show ?thesis
      by (simp add: np_subtract_def norm_map2_sym [of a b])
  next
    case 2
    then show ?thesis
      by (simp add: np_subtract_def norm_broadcast_sym)
  next
    case 3
    then show ?thesis
      by (simp add: np_subtract_def norm_broadcast_sym)
  next
    case 4
    then show ?thesis
      by (simp add: np_subtract_def)
  qed
qed

lemma compare_voice_cases:
  "compare_voice load mfcc p q =
     (case load_mfcc_mean load mfcc p 20 of
        None \<Rightarrow> None
      | Some a \<Rightarrow> (case load_mfcc_mean load mfcc q 20 of
                    None \<Rightarrow> None
                  | Some b \<Rightarrow> map_option np_linalg_norm (np_subtract a b)))"
  by (simp add: compare_voice_def Let_def map_option_case split: option.splits)

lemma compare_voice_sym: "compare_voice load mfcc p q = compare_voice load mfcc q p"
  by (simp add: compare_voice_cases np_subtract_norm_sym split: option.splits)

lemma norm_Finite:
  "np_linalg_norm (map Finite rs) = Finite (sqrt (sum_list (map (\<lambda>x. x ^ 2) rs)))"
proof -
  have "map fsquare (map Finite rs) = map Finite (map (\<lambda>x. x ^ 2) rs)"
    by simp
  moreover have "0 \<le> sum_list (map (\<lambda>x. x ^ 2) rs)"
    by (rule sum_list_nonneg) auto
  ultimately show ?thesis
    by (simp only: np_linalg_norm_def fsum_Finite) simp
qed

lemma map2_fsub_Finite:
  "map2 fsub (map Finite xs) (map Finite ys) = map Finite (map2 (-) xs ys)"
proof (induction xs arbitrary: ys)
  case Nil
  then show ?case by simp
next
  case (Cons x xs)
  then show ?case by (cases ys) (simp_all add: fsub_def)
qed

lemma sum_squares_nth:
  "length a = length b \<Longrightarrow>
     sum_list (map (\<lambda>x. x ^ 2) (map2 (-) a b)) = (\<Sum>i<length a. (a ! i - b ! i) ^ 2)"
  for a b :: "real list"
proof -
  assume len: "length a = length b"
  have "sum_list (map (\<lambda>x. x ^ 2) (map2 (-) a b))
          = (\<Sum>i = 0..<length (map (\<lambda>x. x ^ 2) (map2 (-) a b)). map (\<lambda>x. x ^ 2) (map2 (-) a b) ! i)"
    by (rule sum_list_sum_nth)
  also have "\<dots> = (\<Sum>i = 0..<length a. (a ! i - b ! i) ^ 2)"
    using len by (intro sum.cong) auto
  finally show ?thesis
    by (simp add: atLeast0LessThan)
qed

lemma map2_as_indices:
  "length a = length b \<Longrightarrow>
     map fsquare (map2 fsub a b) = map (\<lambda>i. fsquare (fsub (a ! i) (b ! i))) [0..<length a]"
  by (rule nth_equalityI) simp_all

lemma np_subtract_finite:
  assumes "np_subtract (map Finite xs) (map Finite ys) = Some d"
  shows "\<exists>rs. d = map Finite rs"
proof -
  have b1: "map (\<lambda>b. fsub (Finite c) b) (map Finite ys) = map Finite (map (\<lambda>y. c - y) ys)" for c
    by (simp add: fsub_def)
  have b2: "map (\<lambda>a. fsub a (Finite c)) (map Finite xs) = map Finite (map (\<lambda>x. x - c) xs)" for c
    by (simp add: fsub_def)
  have h1: "hd (map Finite xs) = Finite (hd xs)" if "length xs = 1"
    using that by (cases xs) auto
  have h2: "hd (map Finite ys) = Finite (hd ys)" if "length ys = 1"
    using that by (cases ys) auto
  from assms show ?thesis
    unfolding np_subtract_def
    by (auto simp: map2_fsub_Finite h1 h2 b1 b2 simp del: map_map split: if_splits)
qed

lemma compare_voice_finite:
  assumes "load_mfcc_mean load mfcc p 20 = Some v1" "load_mfcc_mean load mfcc q 20 = Some v2"
    and "list_all is_finite v1" "list_all is_finite v2"
  shows "compare_voice load mfcc p q = None \<or> (\<exists>r. compare_voice load mfcc p q = Some (Finite r))"
proof -
  obtain xs ys where v: "v1 = map Finite xs" "v2 = map Finite ys"
    using assms(3,4) by (auto elim!: finite_vectorE)
  show ?thesis
  proof (cases "np_subtract v1 v2")
    case None
    with assms(1,2) show ?thesis
      by (simp add: compare_voice_cases)
  next
    case (Some d)
    then obtain rs where "d = map Finite rs"
      using np_subtract_finite v by blast
    with Some assms(1,2) show ?thesis
      by (simp add: compare_voice_cases norm_Finite)
  qed
qed

lemma compare_voice_self_finite:
  assumes "load_mfcc_mean load mfcc p 20 = Some v" and "list_all is_finite v"
  shows "compare_voice load mfcc p p = Some (Finite 0)"
proof -
  obtain xs where v: "v = map Finite xs"
    using assms(2) by (auto elim!: finite_vectorE)
  have "sum_list (map (\<lambda>x. x ^ 2) (map2 (-) xs xs)) = 0"
    by (induction xs) auto
  then have "np_linalg_norm (map Finite (map2 (-) xs xs)) = Finite 0"
    by (simp only: norm_Finite) simp
  then show ?thesis
    using assms(1)
    by (simp add: compare_voice_cases np_subtract_def v map2_fsub_Finite del: map_map)
qed

lemma load_mfcc_mean_length:
  assumes shape: "\<forall>y sr n m. mfcc y sr n = Inr m \<longrightarrow> length m = n"
    and some: "load_mfcc_mean load mfcc p n = Some v"
  shows "length v = n"
proof -
  obtain y sr m where "mfcc y sr n = Inr m" "v = np_mean_axis1 m"
    using load_mfcc_mean_SomeD [OF some] by blast
  with shape show ?thesis
    by (simp add: np_mean_axis1_def)
qed

text \<open>
  Claim C2. \<^verbatim>\<open>compare_voice\<close> returns for every pair of paths, every raise of the code
  being a branch of the model. It is absent whenever the fingerprint of either path is
  absent; when both are present, with as many entries each, it is the Euclidean norm
  of their difference: the square root of the sum of the squared differences, which
  for fingerprints of finite numbers is the norm over the reals. Both have 20 entries
  whenever the MFCC matrix has as many rows as coefficients were asked for, which is
  what \<^verbatim>\<open>librosa\<close> returns.
\<close>

theorem compare_voice_spec:
  "((load_mfcc_mean load mfcc a 20 = None \<or> load_mfcc_mean load mfcc b 20 = None) \<longrightarrow>
        compare_voice load mfcc a b = None)
   \<and> (\<forall>v1 v2. load_mfcc_mean load mfcc a 20 = Some v1 \<and> load_mfcc_mean load mfcc b 20 = Some v2
          \<and> length v1 = length v2 \<longrightarrow>
        compare_voice load mfcc a b
          = Some (fsqrt (fsum (map (\<lambda>i. fsquare (fsub (v1 ! i) (v2 ! i))) [0..<length v1]))))
   \<and> (\<forall>xs ys. load_mfcc_mean load mfcc a 20 = Some (map Finite xs)
          \<and> load_mfcc_mean load mfcc b 20 = Some (map Finite ys) \<and> length xs = length ys \<longrightarrow>
        compare_voice load mfcc a b = Some (Finite (sqrt (\<Sum>i<length xs. (xs ! i - ys ! i) ^ 2))))
   \<and> ((\<forall>y sr n m. mfcc y sr n = Inr m \<longrightarrow> length m = n) \<longrightarrow>
        (\<forall>v1 v2. load_mfcc_mean load mfcc a 20 = Some v1 \<and> load_mfcc_mean load mfcc b 20 = Some v2
           \<longrightarrow> length v1 = 20 \<and> length v2 = 20))"
proof (intro conjI allI impI)
  assume "load_mfcc_mean load mfcc a 20 = None \<or> load_mfcc_mean load mfcc b 20 = None"
  then show "compare_voice load mfcc a b = None"
    by (auto simp: compare_voice_cases split: option.splits)
next
  fix v1 v2
  assume "load_mfcc_mean load mfcc a 20 = Some v1 \<and> load_mfcc_mean load mfcc b 20 = Some v2
          \<and> length v1 = length v2"
  then show "compare_voice load mfcc a b
          = Some (fsqrt (fsum (map (\<lambda>i. fsquare (fsub (v1 ! i) (v2 ! i))) [0..<length v1])))"
    by (simp add: compare_voice_cases np_subtract_def np_linalg_norm_def map2_as_indices
        del: map_map)
next
  fix xs ys
  assume "load_mfcc_mean load mfcc a 20 = Some (map Finite xs)
          \<and> load_mfcc_mean load mfcc b 20 = Some (map Finite ys) \<and> length xs = length ys"
  then show "compare_voice load mfcc a b = Some (Finite (sqrt (\<Sum>i<length xs. (xs ! i - ys ! i) ^ 2)))"
    by (simp add: compare_voice_cases np_subtract_def map2_fsub_Finite norm_Finite
        sum_squares_nth del: map_map)
next
  fix v1 v2
  assume "\<forall>y sr n m. mfcc y sr n = Inr m \<longrightarrow> length m = n"
    and "load_mfcc_mean load mfcc a 20 = Some v1 \<and> load_mfcc_mean load mfcc b 20 = Some v2"
  then show "length v1 = 20" "length v2 = 20"
    using load_mfcc_mean_length by blast+
qed

text \<open>
  Claim C9, amended. \<^verbatim>\<open>compare_voice(A, B)\<close> and \<^verbatim>\<open>compare_voice(B, A)\<close> are the same
  result for all paths. For files whose fingerprints are present and hold finite
  numbers only, the two compare equal under \<^verbatim>\<open>==\<close> and the distance of a file to itself
  is 0.
\<close>

theorem compare_voice_symmetric_zero_finite:
  "compare_voice load mfcc a b = compare_voice load mfcc b a
   \<and> (\<forall>v1 v2. load_mfcc_mean load mfcc a 20 = Some v1 \<and> load_mfcc_mean load mfcc b 20 = Some v2
          \<and> list_all is_finite v1 \<and> list_all is_finite v2 \<longrightarrow>
        py_eq (compare_voice load mfcc a b) (compare_voice load mfcc b a)
        \<and> compare_voice load mfcc a a = Some (Finite 0)
        \<and> py_eq (compare_voice load mfcc a a) (Some (Finite 0)))"
proof (intro conjI allI impI)
  show "compare_voice load mfcc a b = compare_voice load mfcc b a"
    by (rule compare_voice_sym)
next
  fix v1 v2
  assume h: "load_mfcc_mean load mfcc a 20 = Some v1 \<and> load_mfcc_mean load mfcc b 20 = Some v2
          \<and> list_all is_finite v1 \<and> list_all is_finite v2"
  then have "compare_voice load mfcc a b = None
      \<or> (\<exists>r. compare_voice load mfcc a b = Some (Finite r))"
    using compare_voice_finite by blast
  then show "py_eq (compare_voice load mfcc a b) (compare_voice load mfcc b a)"
    by (auto simp: compare_voice_sym [of load mfcc b a] py_eq_def feq_def)
  from h show self: "compare_voice load mfcc a a = Some (Finite 0)"
    using compare_voice_self_finite by blast
  then show "py_eq (compare_voice load mfcc a a) (Some (Finite 0))"
    by (simp add: py_eq_def feq_def)
qed


lemma fsum_replicate_Finite: "fsum (replicate n (Finite c)) = Finite (real n * c)"
proof -
  have "replicate n (Finite c) = map Finite (replicate n c)" by simp
  then show ?thesis
    by (simp only: fsum_Finite sum_list_replicate)
qed

lemma foldl_fadd_NaN: "a = NaN \<or> NaN \<in> set xs \<Longrightarrow> foldl fadd a xs = NaN"
proof (induction xs arbitrary: a)
  case Nil
  then show ?case by simp
next
  case (Cons x xs)
  have "fadd a x = NaN \<or> NaN \<in> set xs"
    using Cons.prems by (cases a; cases x) auto
  then show ?case
    by (simp add: Cons.IH)
qed

lemma fsum_NaN: "NaN \<in> set xs \<Longrightarrow> fsum xs = NaN"
  by (simp add: fsum_def foldl_fadd_NaN)

lemma demo_compare:
  "compare_voice demo_load demo_mfcc ''/u/ann.wav'' ''/u/al.wav'' = Some (Finite (sqrt 20))"
  "compare_voice demo_load demo_mfcc ''/u/al.wav'' ''/u/ann.wav'' = Some (Finite (sqrt 20))"
  "compare_voice demo_load demo_mfcc ''/u/ann.wav'' ''/u/ann.wav'' = Some (Finite 0)"
  by (simp_all add: compare_voice_cases demo_fingerprint np_subtract_def np_linalg_norm_def
      fsum_replicate_Finite fsub_def)

lemma demo_compare_loud:
  "compare_voice demo_load demo_mfcc ''/u/loud.wav'' ''/u/loud.wav'' = Some NaN"
  by (simp add: compare_voice_cases demo_special_fingerprints np_subtract_def np_linalg_norm_def
      fsum_NaN fsub_def)

theorem compare_voice_spec_witness:
  "load_mfcc_mean demo_load demo_mfcc ''/u/bad.wav'' 20 = None
   \<and> compare_voice demo_load demo_mfcc ''/u/bad.wav'' ''/u/ann.wav'' = None
   \<and> compare_voice demo_load demo_mfcc ''/u/ann.wav'' ''/u/bad.wav'' = None
   \<and> load_mfcc_mean demo_load demo_mfcc ''/u/ann.wav'' 20 = Some (map Finite (replicate 20 11))
   \<and> load_mfcc_mean demo_load demo_mfcc ''/u/al.wav'' 20 = Some (map Finite (replicate 20 10))
   \<and> compare_voice demo_load demo_mfcc ''/u/ann.wav'' ''/u/al.wav''
       = Some (Finite (sqrt (\<Sum>i<20. (replicate 20 11 ! i - replicate 20 10 ! i) ^ 2)))
   \<and> compare_voice demo_load demo_mfcc ''/u/ann.wav'' ''/u/al.wav'' = Some (Finite (sqrt 20))
   \<and> (\<forall>y sr n. (\<exists>e. demo_mfcc y sr n = Inl e) \<or> (\<exists>m. demo_mfcc y sr n = Inr m \<and> length m = n))"
  using compare_voice_spec [of demo_load demo_mfcc "''/u/bad.wav''" "''/u/ann.wav''"]
    compare_voice_spec [of demo_load demo_mfcc "''/u/ann.wav''" "''/u/bad.wav''"]
    compare_voice_spec [of demo_load demo_mfcc "''/u/ann.wav''" "''/u/al.wav''"]
  by (simp add: demo_fingerprint demo_special_fingerprints demo_compare)
     (simp add: demo_mfcc_def)

theorem compare_voice_symmetric_zero_finite_witness:
  "load_mfcc_mean demo_load demo_mfcc ''/u/ann.wav'' 20 = Some (replicate 20 (Finite 11))
   \<and> load_mfcc_mean demo_load demo_mfcc ''/u/al.wav'' 20 = Some (replicate 20 (Finite 10))
   \<and> list_all is_finite (replicate 20 (Finite 11)) \<and> list_all is_finite (replicate 20 (Finite 10))
   \<and> compare_voice demo_load demo_mfcc ''/u/ann.wav'' ''/u/al.wav'' = Some (Finite (sqrt 20))
   \<and> compare_voice demo_load demo_mfcc ''/u/al.wav'' ''/u/ann.wav'' = Some (Finite (sqrt 20))
   \<and> py_eq (compare_voice demo_load demo_mfcc ''/u/ann.wav'' ''/u/al.wav'')
         (compare_voice demo_load demo_mfcc ''/u/al.wav'' ''/u/ann.wav'')
   \<and> compare_voice demo_load demo_mfcc ''/u/ann.wav'' ''/u/ann.wav'' = Some (Finite 0)"
  using compare_voice_symmetric_zero_finite [of demo_load demo_mfcc "''/u/ann.wav''" "''/u/al.wav''"]
  by (simp add: demo_fingerprint demo_compare list_all_length)

text \<open>
  Claim C9 as stated fails for a file that decodes but whose feature matrix has
  overflowed: the code tests a fingerprint against \<^verbatim>\<open>None\<close> only, the means are NaN,
  the fingerprint counts as present, and the distance of the file to itself is NaN,
  which equals neither 0 nor itself.
\<close>

theorem compare_voice_nan_counterexample:
  "demo_load ''/u/loud.wav'' = Inr (replicate 12 (Finite 1), 96000)
   \<and> demo_mfcc (replicate 12 (Finite 1)) 96000 20 = Inr (replicate 20 [PosInf, NegInf])
   \<and> load_mfcc_mean demo_load demo_mfcc ''/u/loud.wav'' 20 = Some (replicate 20 NaN)
   \<and> compare_voice demo_load demo_mfcc ''/u/loud.wav'' ''/u/loud.wav'' = Some NaN
   \<and> \<not> py_eq (compare_voice demo_load demo_mfcc ''/u/loud.wav'' ''/u/loud.wav'') (Some (Finite 0))
   \<and> \<not> py_eq (compare_voice demo_load demo_mfcc ''/u/loud.wav'' ''/u/loud.wav'')
           (compare_voice demo_load demo_mfcc ''/u/loud.wav'' ''/u/loud.wav'')"
  by (simp add: demo_special_fingerprints demo_compare_loud py_eq_def feq_def)
     (simp add: demo_load_def demo_mfcc_def)

section \<open>Properties of the ranking\<close>

text \<open>On keys without NaN, \<^verbatim>\<open><=\<close> is a linear order and \<^verbatim>\<open>list.sort\<close> sorts; on any keys it
  rearranges.\<close>

lemma fle_refl: "a \<noteq> NaN \<Longrightarrow> fle a a"
  by (cases a) auto

lemma fle_trans: "fle a b \<Longrightarrow> fle b c \<Longrightarrow> fle a c"
  by (cases a; cases b; cases c) auto

lemma flt_fle_trans: "flt a b \<Longrightarrow> fle b c \<Longrightarrow> flt a c"
  by (cases a; cases b; cases c) auto

lemma flt_trans: "flt a b \<Longrightarrow> flt b c \<Longrightarrow> flt a c"
  by (cases a; cases b; cases c) auto

lemma flt_imp_fle: "flt a b \<Longrightarrow> fle a b"
  by (cases a; cases b) auto

lemma not_flt_fle: "a \<noteq> NaN \<Longrightarrow> b \<noteq> NaN \<Longrightarrow> \<not> flt a b \<Longrightarrow> fle b a"
  by (cases a; cases b) auto

lemma fle_PosInf: "a \<noteq> NaN \<Longrightarrow> fle a PosInf"
  by (cases a) auto

lemma fle_not_NaN: "fle a b \<Longrightarrow> a \<noteq> NaN \<and> b \<noteq> NaN"
  by (cases a; cases b) auto


lemma bisect_bounds:
  assumes "sorted_wrt fle ks" and "\<forall>k \<in> set ks. k \<noteq> NaN" and "pivot \<noteq> NaN"
    and "l \<le> r" and "r \<le> length ks"
    and "\<forall>i<l. fle (ks ! i) pivot"
    and "\<forall>i. r \<le> i \<and> i < length ks \<longrightarrow> flt pivot (ks ! i)"
  shows "bisect flt pivot ks l r \<le> length ks
    \<and> (\<forall>i < bisect flt pivot ks l r. fle (ks ! i) pivot)
    \<and> (\<forall>i. bisect flt pivot ks l r \<le> i \<and> i < length ks \<longrightarrow> flt pivot (ks ! i))"
  using assms(4-7)
proof (induction "r - l" arbitrary: l r rule: less_induct)
  case less
  note prems = assms(1-3) less.prems
  show ?case
  proof (cases "l < r")
    case False
    with less.prems have "l = r" by simp
    moreover have "bisect flt pivot ks l r = l"
      using False by (subst bisect.simps) simp
    ultimately show ?thesis
      using less.prems by simp
  next
    case True
    define p where "p = l + (r - l) div 2"
    have p: "l \<le> p" "p < r" "p < length ks"
      using True less.prems by (auto simp: p_def)
    have nn: "ks ! i \<noteq> NaN" if "i < length ks" for i
      using that assms(2) by auto
    show ?thesis
    proof (cases "flt pivot (ks ! p)")
      case lt: True
      have above: "\<forall>i. p \<le> i \<and> i < length ks \<longrightarrow> flt pivot (ks ! i)"
      proof (intro allI impI)
        fix i assume i: "p \<le> i \<and> i < length ks"
        show "flt pivot (ks ! i)"
        proof (cases "i = p")
          case True with lt show ?thesis by simp
        next
          case False
          with i have "p < i" by simp
          with i assms(1) have "fle (ks ! p) (ks ! i)"
            by (simp add: sorted_wrt_nth_less)
          with lt show ?thesis by (rule flt_fle_trans)
        qed
      qed
      have "bisect flt pivot ks l r = bisect flt pivot ks l p"
        using True lt by (simp add: bisect.simps [of flt pivot ks l r] p_def Let_def)
      moreover have "bisect flt pivot ks l p \<le> length ks
        \<and> (\<forall>i < bisect flt pivot ks l p. fle (ks ! i) pivot)
        \<and> (\<forall>i. bisect flt pivot ks l p \<le> i \<and> i < length ks \<longrightarrow> flt pivot (ks ! i))"
        using less.hyps [of p l] p above less.prems(3) True by simp
      ultimately show ?thesis by simp
    next
      case nlt: False
      have pk: "fle (ks ! p) pivot"
        using nlt nn [OF p(3)] assms(3) by (simp add: not_flt_fle)
      have below: "\<forall>i < p + 1. fle (ks ! i) pivot"
      proof (intro allI impI)
        fix i assume i: "i < p + 1"
        show "fle (ks ! i) pivot"
        proof (cases "i = p")
          case True with pk show ?thesis by simp
        next
          case False
          with i have "i < p" by simp
          with p(3) assms(1) have "fle (ks ! i) (ks ! p)"
            by (simp add: sorted_wrt_nth_less)
          then show ?thesis using pk by (rule fle_trans)
        qed
      qed
      have "bisect flt pivot ks l r = bisect flt pivot ks (p + 1) r"
        using True nlt by (simp add: bisect.simps [of flt pivot ks l r] p_def Let_def)
      moreover have "bisect flt pivot ks (p + 1) r \<le> length ks
        \<and> (\<forall>i < bisect flt pivot ks (p + 1) r. fle (ks ! i) pivot)
        \<and> (\<forall>i. bisect flt pivot ks (p + 1) r \<le> i \<and> i < length ks \<longrightarrow> flt pivot (ks ! i))"
        using less.hyps [of r "p + 1"] p below less.prems(2,4) True by simp
      ultimately show ?thesis by simp
    qed
  qed
qed

lemma insert_sorted:
  assumes srt: "sorted_wrt fle ks" and m: "m \<le> length ks"
    and below: "\<forall>i<m. fle (ks ! i) k"
    and above: "\<forall>i. m \<le> i \<and> i < length ks \<longrightarrow> flt k (ks ! i)"
  shows "sorted_wrt fle (take m ks @ k # drop m ks)"
proof -
  have lo: "\<forall>x \<in> set (take m ks). fle x k"
    using below m by (auto simp: in_set_conv_nth)
  have hi: "\<forall>y \<in> set (drop m ks). fle k y"
  proof
    fix y assume "y \<in> set (drop m ks)"
    then obtain j where "j < length ks - m" "y = ks ! (m + j)"
      by (auto simp: in_set_conv_nth)
    with above show "fle k y"
      by (simp add: flt_imp_fle)
  qed
  from srt lo hi show ?thesis
    by (auto simp: sorted_wrt_append sorted_wrt_take sorted_wrt_drop intro: fle_trans)
qed

lemma binarysort_mset: "mset (binarysort lt key run xs) = mset run + mset xs"
proof (induction xs arbitrary: run)
  case Nil
  then show ?case by simp
next
  case (Cons x xs)
  have "mset (take l run @ x # drop l run) = mset run + {#x#}" for l
    by (metis add_mset_add_single append_take_drop_id mset.simps(2) mset_append union_mset_add_mset_right)
  then show ?case
    by (simp add: Cons.IH Let_def)
qed

lemma binarysort_sorted:
  assumes "sorted_wrt fle (map key run)"
    and "\<forall>x \<in> set run \<union> set xs. key x \<noteq> NaN"
  shows "sorted_wrt fle (map key (binarysort flt key run xs))"
  using assms
proof (induction xs arbitrary: run)
  case Nil
  then show ?case by simp
next
  case (Cons x xs)
  define l where "l = bisect flt (key x) (map key run) 0 (length run)"
  have b: "l \<le> length (map key run)
      \<and> (\<forall>i<l. fle (map key run ! i) (key x))
      \<and> (\<forall>i. l \<le> i \<and> i < length (map key run) \<longrightarrow> flt (key x) (map key run ! i))"
  proof -
    have "\<forall>k \<in> set (map key run). k \<noteq> NaN" "key x \<noteq> NaN"
      using Cons.prems(2) by auto
    with Cons.prems(1) show ?thesis
      unfolding l_def
      by (intro bisect_bounds [where r = "length run" and l = 0, simplified]) auto
  qed
  then have "sorted_wrt fle (take l (map key run) @ key x # drop l (map key run))"
    using Cons.prems(1) by (intro insert_sorted) auto
  then have srt: "sorted_wrt fle (map key (take l run @ x # drop l run))"
    by (simp add: take_map drop_map)
  have "\<forall>y \<in> set (take l run @ x # drop l run) \<union> set xs. key y \<noteq> NaN"
    using Cons.prems(2) by (auto dest: in_set_takeD in_set_dropD)
  from Cons.IH [OF srt this] show ?case
    by (simp add: l_def Let_def)
qed

lemma run_ascending_split: "run_ascending lt key prev xs = (run, rest) \<Longrightarrow> run @ rest = xs"
  by (induction xs arbitrary: prev run rest) (auto split: if_splits prod.splits)

lemma run_descending_split: "run_descending lt key prev xs = (run, rest) \<Longrightarrow> run @ rest = xs"
  by (induction xs arbitrary: prev run rest) (auto split: if_splits prod.splits)

lemma run_ascending_sorted:
  assumes "run_ascending flt key prev xs = (run, rest)"
    and "key prev \<noteq> NaN" and "\<forall>x \<in> set xs. key x \<noteq> NaN"
  shows "sorted_wrt fle (map key (prev # run))"
  using assms
proof (induction xs arbitrary: prev run rest)
  case Nil
  then show ?case by simp
next
  case (Cons x xs)
  show ?case
  proof (cases "flt (key x) (key prev)")
    case True
    with Cons.prems show ?thesis by simp
  next
    case False
    obtain run' rest' where r: "run_ascending flt key x xs = (run', rest')"
      by (cases "run_ascending flt key x xs")
    with False Cons.prems have run: "run = x # run'" by simp
    have px: "fle (key prev) (key x)"
      using False Cons.prems by (simp add: not_flt_fle)
    have srt: "sorted_wrt fle (map key (x # run'))"
      using Cons.IH [OF r] Cons.prems by simp
    then have "\<forall>y \<in> set run'. fle (key x) (key y)" by simp
    with px have "\<forall>y \<in> set run'. fle (key prev) (key y)"
      by (blast intro: fle_trans)
    with px srt show ?thesis by (simp add: run)
  qed
qed

lemma run_descending_sorted:
  assumes "run_descending flt key prev xs = (run, rest)"
  shows "sorted_wrt (\<lambda>a b. flt b a) (map key (prev # run))"
  using assms
proof (induction xs arbitrary: prev run rest)
  case Nil
  then show ?case by simp
next
  case (Cons x xs)
  show ?case
  proof (cases "flt (key x) (key prev)")
    case False
    with Cons.prems show ?thesis by simp
  next
    case True
    obtain run' rest' where r: "run_descending flt key x xs = (run', rest')"
      by (cases "run_descending flt key x xs")
    with True Cons.prems have run: "run = x # run'" by simp
    have srt: "sorted_wrt (\<lambda>a b. flt b a) (map key (x # run'))"
      using Cons.IH [OF r] .
    then have "\<forall>y \<in> set run'. flt (key y) (key x)" by simp
    with True have "\<forall>y \<in> set run'. flt (key y) (key prev)"
      by (blast intro: flt_trans)
    with True srt show ?thesis by (simp add: run)
  qed
qed

lemma list_sort_mset: "mset (list_sort lt key xs) = mset xs"
proof -
  consider "xs = []" | x where "xs = [x]" | x y zs where "xs = x # y # zs"
    by (cases xs rule: remdups_adj.cases) auto
  then show ?thesis
  proof cases
    case 1
    then show ?thesis by simp
  next
    case 2
    then show ?thesis by simp
  next
    case xs: 3
  show ?thesis
  proof (cases "lt (key y) (key x)")
    case True
    obtain run rest where r: "run_descending lt key y zs = (run, rest)"
      by (cases "run_descending lt key y zs")
    from run_descending_split [OF r] True r show ?thesis
      by (auto simp: xs binarysort_mset)
  next
    case False
    obtain run rest where r: "run_ascending lt key y zs = (run, rest)"
      by (cases "run_ascending lt key y zs")
    from run_ascending_split [OF r] False r show ?thesis
      by (auto simp: xs binarysort_mset)
  qed
  qed
qed

lemma list_sort_sorted:
  assumes nn: "\<forall>x \<in> set xs. key x \<noteq> NaN"
  shows "sorted_wrt fle (map key (list_sort flt key xs))"
proof -
  consider "xs = []" | x where "xs = [x]" | x y zs where "xs = x # y # zs"
    by (cases xs rule: remdups_adj.cases) auto
  then show ?thesis
  proof cases
    case 1
    then show ?thesis by simp
  next
    case 2
    then show ?thesis by simp
  next
    case xs: 3
  show ?thesis
  proof (cases "flt (key y) (key x)")
    case True
    obtain run rest where r: "run_descending flt key y zs = (run, rest)"
      by (cases "run_descending flt key y zs")
    have zs: "run @ rest = zs" using run_descending_split [OF r] .
    have "sorted_wrt (\<lambda>a b. flt b a) (map key (y # run))"
      using run_descending_sorted [OF r] .
    moreover from this True have "\<forall>z \<in> set run. flt (key z) (key x)"
      by (auto intro: flt_trans)
    ultimately have "sorted_wrt (\<lambda>a b. flt b a) (map key (x # y # run))"
      using True by simp
    then have "sorted_wrt flt (rev (map key (x # y # run)))"
      by (simp only: sorted_wrt_rev)
    then have "sorted_wrt fle (map key (rev (x # y # run)))"
      unfolding rev_map by (rule sorted_wrt_mono_rel [rotated]) (simp add: flt_imp_fle)
    moreover have "\<forall>v \<in> set (rev (x # y # run)) \<union> set rest. key v \<noteq> NaN"
      using nn zs by (auto simp: xs)
    ultimately have "sorted_wrt fle (map key (binarysort flt key (rev (x # y # run)) rest))"
      by (rule binarysort_sorted)
    with True r show ?thesis by (simp add: xs)
  next
    case False
    obtain run rest where r: "run_ascending flt key y zs = (run, rest)"
      by (cases "run_ascending flt key y zs")
    have zs: "run @ rest = zs" using run_ascending_split [OF r] .
    have xy: "fle (key x) (key y)"
      using False nn by (simp add: xs not_flt_fle)
    have srt: "sorted_wrt fle (map key (y # run))"
      using run_ascending_sorted [OF r] nn by (simp add: xs)
    then have "\<forall>z \<in> set run. fle (key y) (key z)" by simp
    with xy have "\<forall>z \<in> set run. fle (key x) (key z)"
      by (blast intro: fle_trans)
    with xy srt have "sorted_wrt fle (map key (x # y # run))" by simp
    moreover have "\<forall>v \<in> set (x # y # run) \<union> set rest. key v \<noteq> NaN"
      using nn zs by (auto simp: xs)
    ultimately have "sorted_wrt fle (map key (binarysort flt key (x # y # run) rest))"
      by (rule binarysort_sorted)
    with False r show ?thesis by (simp add: xs)
  qed
  qed
qed

lemma collect_results_acc:
  "collect_results cmp q cs acc = acc @ valid_comparisons cmp q cs"
  by (induction cs arbitrary: acc)
     (auto simp: valid_comparisons_def split: option.splits)

lemma collect_results_valid:
  "collect_results cmp q cs [] = valid_comparisons cmp q cs"
  by (simp add: collect_results_acc)

lemma list_sort_Nil_iff: "list_sort lt key xs = [] \<longleftrightarrow> xs = []"
  using list_sort_mset [of lt key xs] by (metis mset_zero_iff)

text \<open>
  Claim C1, amended. For every query, candidate list, threshold and top-K, the ranking
  is the first top-K of the accepted results (distance at most the threshold) when
  there is one, and otherwise the first top-K of all results, where the results are
  the valid comparisons (the candidates whose comparison is not absent) as
  \<^verbatim>\<open>list.sort\<close> leaves them. It has exactly min(top-K, number of valid comparisons)
  entries when the threshold bounds every distance. Provided no distance is NaN, the
  results and the ranking are sorted non-decreasing by distance, and an infinite
  threshold gives exactly min(top-K, number of valid comparisons) entries.
\<close>

theorem rank_threshold_policy_no_nan:
  "(let valid = valid_comparisons cmp q cs;
        results = list_sort flt dist_of valid;
        accepted = filter (\<lambda>r. fle (dist_of r) thr) results
    in mset results = mset valid
     \<and> rank cmp q cs thr k = (if accepted \<noteq> [] then take k accepted else take k results)
     \<and> ((\<forall>r \<in> set valid. fle (dist_of r) thr) \<longrightarrow>
          length (rank cmp q cs thr k) = min k (length valid))
     \<and> ((\<forall>r \<in> set valid. dist_of r \<noteq> NaN) \<longrightarrow>
          sorted_wrt fle (map dist_of results)
          \<and> sorted_wrt fle (map dist_of (rank cmp q cs thr k))
          \<and> length (rank cmp q cs PosInf k) = min k (length valid)))"
proof -
  define valid where "valid = valid_comparisons cmp q cs"
  define results where "results = list_sort flt dist_of valid"
  define accepted where "accepted = filter (\<lambda>r. fle (dist_of r) thr) results"
  have perm: "mset results = mset valid"
    by (simp add: results_def list_sort_mset)
  then have same_set: "set results = set valid" and same_length: "length results = length valid"
    by (metis mset_eq_setD, metis size_mset)
  have empty_case: "results = [] \<Longrightarrow> accepted = []"
    by (simp add: accepted_def)
  have eq: "rank cmp q cs t k = (if filter (\<lambda>r. fle (dist_of r) t) results \<noteq> []
      then take k (filter (\<lambda>r. fle (dist_of r) t) results) else take k results)" for t
    by (auto simp: rank_def select_shown_def Let_def collect_results_valid valid_def [symmetric]
        results_def [symmetric])
  have count: "length (rank cmp q cs t k) = min k (length valid)"
    if all: "\<forall>r \<in> set valid. fle (dist_of r) t" for t
  proof -
    from all same_set have "filter (\<lambda>r. fle (dist_of r) t) results = results"
      by simp
    then show ?thesis
      unfolding eq using same_length by (cases results) (simp_all add: min.commute)
  qed
  have nan_free: "sorted_wrt fle (map dist_of results)
      \<and> sorted_wrt fle (map dist_of (rank cmp q cs thr k))
      \<and> length (rank cmp q cs PosInf k) = min k (length valid)"
    if nn: "\<forall>r \<in> set valid. dist_of r \<noteq> NaN"
  proof -
    have srt: "sorted_wrt fle (map dist_of results)"
      unfolding results_def using nn by (rule list_sort_sorted)
    then have srt': "sorted_wrt (\<lambda>a b. fle (dist_of a) (dist_of b)) results"
      by (simp add: sorted_wrt_map)
    have "sorted_wrt (\<lambda>a b. fle (dist_of a) (dist_of b)) (rank cmp q cs thr k)"
      unfolding eq using srt' by (simp add: sorted_wrt_take sorted_wrt_filter)
    then have "sorted_wrt fle (map dist_of (rank cmp q cs thr k))"
      by (simp add: sorted_wrt_map)
    moreover have "\<forall>r \<in> set valid. fle (dist_of r) PosInf"
      using nn by (simp add: fle_PosInf)
    then have "length (rank cmp q cs PosInf k) = min k (length valid)"
      by (rule count)
    ultimately show ?thesis
      using srt by simp
  qed
  show ?thesis
    unfolding Let_def valid_def [symmetric] results_def [symmetric]
    using perm eq [of thr] count [of thr] nan_free by blast
qed

lemma demo_valid:
  "valid_comparisons demo_cmp ''q.wav'' demo_candidates =
     [(''ann'', ''/u/ann.wav'', Finite 10), (''al'', ''/u/al.wav'', Finite 9)]"
  by (simp add: valid_comparisons_def demo_cmp_def demo_candidates_def)

lemma demo_rank:
  "rank demo_cmp ''q.wav'' demo_candidates PosInf 1 = [(''al'', ''/u/al.wav'', Finite 9)]"
  "rank demo_cmp ''q.wav'' demo_candidates (Finite 100) 1 = [(''al'', ''/u/al.wav'', Finite 9)]"
  by (simp_all add: rank_def collect_results_valid demo_valid select_shown_def dist_of_def
      bisect.simps)

theorem rank_threshold_policy_no_nan_witness:
  "list_all (\<lambda>r. dist_of r \<noteq> NaN) (valid_comparisons demo_cmp ''q.wav'' demo_candidates)
   \<and> list_all (\<lambda>r. fle (dist_of r) (Finite 100)) (valid_comparisons demo_cmp ''q.wav'' demo_candidates)
   \<and> rank demo_cmp ''q.wav'' demo_candidates PosInf 1 = [(''al'', ''/u/al.wav'', Finite 9)]
   \<and> length (rank demo_cmp ''q.wav'' demo_candidates PosInf 1)
       = min 1 (length (valid_comparisons demo_cmp ''q.wav'' demo_candidates))
   \<and> length (rank demo_cmp ''q.wav'' demo_candidates (Finite 100) 1)
       = min 1 (length (valid_comparisons demo_cmp ''q.wav'' demo_candidates))"
  using rank_threshold_policy_no_nan [of demo_cmp "''q.wav''" demo_candidates "Finite 100" 1]
    demo_rank
  by (simp add: demo_valid dist_of_def Let_def)

lemma demo_nan_valid:
  "valid_comparisons (compare_voice demo_load demo_mfcc) ''/u/q.wav'' nan_candidates =
     [(''ann'', ''/u/ann.wav'', Finite (sqrt 80)), (''loud'', ''/u/loud.wav'', NaN),
      (''al'', ''/u/al.wav'', Finite (sqrt 20))]"
  by (simp add: valid_comparisons_def nan_candidates_def compare_voice_cases demo_fingerprint
      demo_special_fingerprints np_subtract_def np_linalg_norm_def fsum_replicate_Finite
      fsum_NaN fsub_def)

lemma demo_nan_rank:
  "rank (compare_voice demo_load demo_mfcc) ''/u/q.wav'' nan_candidates PosInf 3 =
     [(''ann'', ''/u/ann.wav'', Finite (sqrt 80)), (''al'', ''/u/al.wav'', Finite (sqrt 20))]"
  by (simp add: rank_def collect_results_valid demo_nan_valid select_shown_def dist_of_def)

text \<open>
  Claim C1 as stated fails when a comparison is NaN, which the code keeps as a valid
  result: with the candidates \<^verbatim>\<open>ann\<close>, \<^verbatim>\<open>loud\<close> and \<^verbatim>\<open>al\<close>, of which \<^verbatim>\<open>loud\<close> has a
  NaN fingerprint, the sort leaves the three results as they are, the NaN is not at
  most the infinite threshold, and the ranking for top-K 3 has two entries, in
  descending order.
\<close>

theorem rank_nan_counterexample:
  "valid_comparisons (compare_voice demo_load demo_mfcc) ''/u/q.wav'' nan_candidates =
     [(''ann'', ''/u/ann.wav'', Finite (sqrt 80)), (''loud'', ''/u/loud.wav'', NaN),
      (''al'', ''/u/al.wav'', Finite (sqrt 20))]
   \<and> rank (compare_voice demo_load demo_mfcc) ''/u/q.wav'' nan_candidates PosInf 3 =
     [(''ann'', ''/u/ann.wav'', Finite (sqrt 80)), (''al'', ''/u/al.wav'', Finite (sqrt 20))]
   \<and> \<not> sorted_wrt fle
         (map dist_of (rank (compare_voice demo_load demo_mfcc) ''/u/q.wav'' nan_candidates PosInf 3))
   \<and> length (rank (compare_voice demo_load demo_mfcc) ''/u/q.wav'' nan_candidates PosInf 3)
       \<noteq> min 3 (length (valid_comparisons (compare_voice demo_load demo_mfcc) ''/u/q.wav''
                          nan_candidates))"
  by (simp add: demo_nan_valid demo_nan_rank dist_of_def)

section \<open>Properties of the catalog\<close>

lemma save_voice_None: "save_voice None name path db = insert_or_ignore name path db"
  by (simp add: save_voice_def)

lemma save_voice_fault: "save_voice (Some e) name path db = db"
  by (simp add: save_voice_def)

lemma insert_registered: "file_registered_in_db path (insert_or_ignore name path db)"
  by (simp add: file_registered_in_db_def insert_or_ignore_def)

lemma save_voice_registered_rows:
  "file_registered_in_db path db \<Longrightarrow> voices (save_voice fault name path db) = voices db"
  by (simp add: file_registered_in_db_def save_voice_def insert_or_ignore_def split: option.splits)

lemma save_voice_again:
  "voices (save_voice fault2 name2 path (insert_or_ignore name1 path db))
     = voices (insert_or_ignore name1 path db)"
  by (simp add: save_voice_registered_rows insert_registered)

lemma save_voice_length:
  "length (get_all_db_rows (save_voice fault name path db))
     = length (get_all_db_rows db)
       + (if fault = None \<and> \<not> file_registered_in_db path db then 1 else 0)"
  by (simp add: save_voice_def insert_or_ignore_def get_all_db_rows_def file_registered_in_db_def
      split: option.splits)

lemma filter_filename_absent:
  "path \<notin> set (map row_filename rs) \<Longrightarrow> filter (\<lambda>r. row_filename r = path) rs = []"
  by (induction rs) auto

lemma distinct_one_row:
  "distinct (map row_filename rs) \<Longrightarrow> path \<in> set (map row_filename rs)
     \<Longrightarrow> length (filter (\<lambda>r. row_filename r = path) rs) = 1"
proof (induction rs)
  case Nil
  then show ?case by simp
next
  case (Cons r rs)
  show ?case
  proof (cases "row_filename r = path")
    case True
    with Cons.prems have "path \<notin> set (map row_filename rs)" by auto
    with True show ?thesis by (simp add: filter_filename_absent)
  next
    case False
    with Cons show ?thesis by auto
  qed
qed

lemma save_voice_unique:
  "unique_filenames db \<Longrightarrow> unique_filenames (save_voice fault name path db)"
  by (simp add: unique_filenames_def save_voice_def insert_or_ignore_def split: option.splits)

lemma rows_for_path:
  "filter (\<lambda>(n, f). f = path) (get_all_db_rows db)
     = map (\<lambda>r. (row_name r, row_filename r)) (filter (\<lambda>r. row_filename r = path) (voices db))"
  by (simp add: get_all_db_rows_def filter_map comp_def)

text \<open>
  Claim C5. Registering is idempotent on the rows of the catalog. After a
  \<^verbatim>\<open>save_voice\<close> whose insert was executed, a second \<^verbatim>\<open>save_voice\<close> with the same path,
  under any name and whether or not its own insert raises, leaves the rows as they
  are (only the \<^verbatim>\<open>AUTOINCREMENT\<close> counter moves) and raises nothing. An insert that
  raises is swallowed and changes nothing. One call lengthens the list of all rows by
  one when the insert is executed for a path that was not registered, and by nothing
  otherwise. On a table that respects the \<^verbatim>\<open>UNIQUE\<close> constraint there is exactly one
  row for the path after the first call and after the second.
\<close>

theorem save_voice_idempotent:
  "voices (save_voice fault2 name2 path (save_voice None name1 path db))
     = voices (save_voice None name1 path db)
   \<and> get_all_db_rows (save_voice fault2 name2 path (save_voice None name1 path db))
     = get_all_db_rows (save_voice None name1 path db)
   \<and> (\<forall>e. save_voice (Some e) name1 path db = db)
   \<and> length (get_all_db_rows (save_voice fault name1 path db))
       = length (get_all_db_rows db)
         + (if fault = None \<and> \<not> file_registered_in_db path db then 1 else 0)
   \<and> (unique_filenames db \<longrightarrow>
        unique_filenames (save_voice fault name1 path db)
        \<and> length (filter (\<lambda>(n, f). f = path) (get_all_db_rows (save_voice None name1 path db))) = 1
        \<and> length (filter (\<lambda>(n, f). f = path)
                    (get_all_db_rows (save_voice fault2 name2 path (save_voice None name1 path db)))) = 1)"
proof -
  have one: "length (filter (\<lambda>(n, f). f = path) (get_all_db_rows (insert_or_ignore name1 path db))) = 1"
    if "unique_filenames db"
  proof -
    from that have "distinct (map row_filename (voices (insert_or_ignore name1 path db)))"
      using save_voice_unique [of db "None :: unit option" name1 path]
      by (simp add: unique_filenames_def save_voice_None)
    moreover have "path \<in> set (map row_filename (voices (insert_or_ignore name1 path db)))"
      using insert_registered [of path name1 db] by (simp add: file_registered_in_db_def)
    ultimately show ?thesis
      by (simp only: rows_for_path length_map distinct_one_row)
  qed
  have rows: "get_all_db_rows (save_voice fault2 name2 path (insert_or_ignore name1 path db))
     = get_all_db_rows (insert_or_ignore name1 path db)"
    by (simp add: get_all_db_rows_def save_voice_again)
  have len: "length (get_all_db_rows (save_voice fault name1 path db))
       = length (get_all_db_rows db)
         + (if fault = None \<and> \<not> file_registered_in_db path db then 1 else 0)"
    by (rule save_voice_length)
  show ?thesis
    using one len
    by (simp add: save_voice_None save_voice_fault save_voice_again rows save_voice_unique)
qed

theorem save_voice_idempotent_witness:
  "unique_filenames (init_db None)
   \<and> save_voice None ''al'' ''/srv/uploads/alice.wav''
        (save_voice None ''alice'' ''/srv/uploads/alice.wav'' (init_db None))
     = \<lparr>voices = [\<lparr>row_id = 1, row_name = ''alice'', row_filename = ''/srv/uploads/alice.wav''\<rparr>],
        sqlite_sequence = 2\<rparr>
   \<and> get_all_db_rows (save_voice (Some ''database is locked'') ''al'' ''/srv/uploads/alice.wav''
        (save_voice None ''alice'' ''/srv/uploads/alice.wav'' (init_db None)))
     = [(''alice'', ''/srv/uploads/alice.wav'')]
   \<and> length (filter (\<lambda>(n, f). f = ''/srv/uploads/alice.wav'')
        (get_all_db_rows (save_voice None ''al'' ''/srv/uploads/alice.wav''
           (save_voice None ''alice'' ''/srv/uploads/alice.wav'' (init_db None))))) = 1"
  using save_voice_idempotent [of "None :: string option" "''al''" "''/srv/uploads/alice.wav''"
      "''alice''" "init_db None" None]
    save_voice_idempotent [of "Some ''database is locked''" "''al''" "''/srv/uploads/alice.wav''"
      "''alice''" "init_db None" None]
  by (simp add: unique_filenames_def init_db_def save_voice_def insert_or_ignore_def
      get_all_db_rows_def)

section \<open>Properties of the candidate set\<close>

lemma foldl_update_map_of:
  "map_of (foldl (\<lambda>d (k, v). AList.update k v d) d0 kvs) k =
     (case map_of (rev kvs) k of Some v \<Rightarrow> Some v | None \<Rightarrow> map_of d0 k)"
proof (induction kvs arbitrary: d0)
  case Nil
  then show ?case by simp
next
  case (Cons kv kvs)
  obtain k' v' where kv: "kv = (k', v')" by (cases kv)
  show ?case
    by (simp add: kv Cons.IH update_conv' map_add_def split: option.splits)
qed

lemma foldl_update_distinct:
  "distinct (map fst d0) \<Longrightarrow> distinct (map fst (foldl (\<lambda>d (k, v). AList.update k v d) d0 kvs))"
proof (induction kvs arbitrary: d0)
  case Nil
  then show ?case by simp
next
  case (Cons kv kvs)
  obtain k' v' where kv: "kv = (k', v')" by (cases kv)
  show ?case
    using Cons.prems by (simp add: kv Cons.IH distinct_update)
qed

lemma dict_of_pairs_map_of: "map_of (dict_of_pairs kvs) k = map_of (rev kvs) k"
  by (simp add: dict_of_pairs_def foldl_update_map_of split: option.splits)

lemma dict_of_pairs_distinct: "distinct (map fst (dict_of_pairs kvs))"
  by (simp add: dict_of_pairs_def foldl_update_distinct)

lemma distinct_filter_key:
  "distinct (map fst al) \<Longrightarrow> map_of al k = Some v \<Longrightarrow> filter (\<lambda>(k', v'). k' = k) al = [(k, v)]"
proof (induction al)
  case Nil
  then show ?case by simp
next
  case (Cons kv al)
  obtain k' v' where kv: "kv = (k', v')" by (cases kv)
  show ?case
  proof (cases "k' = k")
    case True
    with Cons.prems kv have notin: "k \<notin> fst ` set al" and v: "v' = v" by auto
    from notin have "filter (\<lambda>(k', v'). k' = k) al = []"
      by (force simp: filter_empty_conv)
    with True kv v show ?thesis by simp
  next
    case False
    with Cons kv show ?thesis by simp
  qed
qed

lemma map_of_constant_value:
  "k \<in> fst ` set al \<Longrightarrow> \<forall>(k', v') \<in> set al. k' = k \<longrightarrow> v' = c \<Longrightarrow> map_of al k = Some c"
  by (induction al) (auto split: if_splits)

lemma scan_fixed:
  assumes idem: "\<forall>p. abspath (abspath p) = abspath p"
    and f: "f \<in> set (scan_uploads_for_audio abspath fs)"
  shows "abspath f = f"
proof -
  from f obtain g where "f = abspath g"
    by (auto simp: scan_uploads_for_audio_def)
  with idem show ?thesis by simp
qed

text \<open>
  Claim C10. In match mode Both, every path the scan of the managed directory returns
  is the path of exactly one candidate, and the name of that candidate is the one
  derived from the file, its base name without extension, whatever name a catalog row
  gives to the same absolute path: the rows of the scan are merged after the rows of
  the catalog into a map keyed by absolute path in which the last write wins.
  \<^verbatim>\<open>os.path.abspath\<close> is idempotent.
\<close>

theorem both_mode_folder_name_wins:
  assumes idem: "\<forall>p. abspath (abspath p) = abspath p"
  shows "\<forall>f \<in> set (scan_uploads_for_audio abspath fs).
           filter (\<lambda>(n, p). p = f) (match_candidates abspath db fs Both) = [(path_stem (Path f), f)]"
proof
  fix f
  assume f: "f \<in> set (scan_uploads_for_audio abspath fs)"
  define files where "files = scan_uploads_for_audio abspath fs"
  define A where "A = map (\<lambda>(name, path). (abspath path, name)) (get_all_db_rows db)"
  define B where "B = map (\<lambda>f. (abspath f, path_stem (Path f))) files"
  define combined where "combined = dict_of_pairs (A @ B)"
  have fixed: "abspath g = g" if "g \<in> set files" for g
    using that idem scan_fixed unfolding files_def by blast
  have cands: "match_candidates abspath db fs Both = map (\<lambda>(p, n). (n, p)) combined"
    by (simp add: match_candidates_def Let_def combined_def A_def B_def files_def comp_def
        case_prod_unfold)
  have "f \<in> fst ` set (rev B)"
    using f fixed unfolding B_def files_def by force
  moreover have "\<forall>(k', v') \<in> set (rev B). k' = f \<longrightarrow> v' = path_stem (Path f)"
    using fixed unfolding B_def by auto
  ultimately have "map_of (rev B) f = Some (path_stem (Path f))"
    by (rule map_of_constant_value)
  then have "map_of combined f = Some (path_stem (Path f))"
    by (simp add: combined_def dict_of_pairs_map_of)
  then have "filter (\<lambda>(k', v'). k' = f) combined = [(f, path_stem (Path f))]"
    using dict_of_pairs_distinct [of "A @ B"] unfolding combined_def by (rule distinct_filter_key [rotated])
  then show "filter (\<lambda>(n, p). p = f) (match_candidates abspath db fs Both) = [(path_stem (Path f), f)]"
    by (simp add: cands filter_map comp_def case_prod_unfold)
qed

lemma demo_scan: "scan_uploads_for_audio demo_abspath demo_fs = [''/srv/uploads/a.wav'', ''/srv/uploads/sub/b.mp3'']"
  by code_simp

lemma demo_abspath_idem: "\<forall>p. demo_abspath (demo_abspath p) = demo_abspath p"
  by (simp add: demo_abspath_def startswith_def)

lemma demo_match_candidates:
  "match_candidates demo_abspath demo_db demo_fs Both =
     [(''a'', ''/srv/uploads/a.wav''), (''Old'', ''/srv/uploads/gone.wav''),
      (''b'', ''/srv/uploads/sub/b.mp3'')]"
  by code_simp

theorem both_mode_folder_name_wins_witness:
  "(\<forall>p. demo_abspath (demo_abspath p) = demo_abspath p)
   \<and> ''/srv/uploads/a.wav'' \<in> set (scan_uploads_for_audio demo_abspath demo_fs)
   \<and> (''Alice'', ''/srv/uploads/a.wav'') \<in> set (get_all_db_rows demo_db)
   \<and> path_stem (Path ''/srv/uploads/a.wav'') = ''a''
   \<and> filter (\<lambda>(n, p). p = ''/srv/uploads/a.wav'') (match_candidates demo_abspath demo_db demo_fs Both)
       = [(''a'', ''/srv/uploads/a.wav'')]"
  using both_mode_folder_name_wins [OF demo_abspath_idem, of demo_fs demo_db]
  by (simp add: demo_abspath_idem demo_scan demo_match_candidates)
     (simp add: get_all_db_rows_def demo_db_def)

section \<open>Properties of the ingestion helpers\<close>

lemma unique_loop_free: "\<not> path_exists fs (unique_loop fs parent stem ext p c)"
  by (induction fs parent stem ext p c rule: unique_loop.induct)
     (subst unique_loop.simps, simp)

lemma unique_loop_keep: "\<not> path_exists fs p \<Longrightarrow> unique_loop fs parent stem ext p c = p"
  by (subst unique_loop.simps) simp

lemma unique_loop_numbered:
  "path_exists fs p \<Longrightarrow>
     \<exists>k\<ge>c. unique_loop fs parent stem ext p c = numbered parent stem ext k
       \<and> (\<forall>j. c \<le> j \<and> j < k \<longrightarrow> path_exists fs (numbered parent stem ext j))"
proof (induction fs parent stem ext p c rule: unique_loop.induct)
  case (1 fs parent stem ext p counter)
  have step: "unique_loop fs parent stem ext p counter
      = unique_loop fs parent stem ext (numbered parent stem ext counter) (counter + 1)"
    using "1.prems" by (subst unique_loop.simps) simp
  show ?case
  proof (cases "path_exists fs (numbered parent stem ext counter)")
    case False
    then have "unique_loop fs parent stem ext p counter = numbered parent stem ext counter"
      by (simp add: step unique_loop_keep)
    then show ?thesis by auto
  next
    case True
    from "1.IH" [OF "1.prems" True]
    obtain k where k: "counter + 1 \<le> k"
        "unique_loop fs parent stem ext (numbered parent stem ext counter) (counter + 1)
           = numbered parent stem ext k"
        "\<forall>j. counter + 1 \<le> j \<and> j < k \<longrightarrow> path_exists fs (numbered parent stem ext j)"
      by blast
    have "\<forall>j. counter \<le> j \<and> j < k \<longrightarrow> path_exists fs (numbered parent stem ext j)"
    proof (intro allI impI)
      fix j
      assume "counter \<le> j \<and> j < k"
      then consider "j = counter" | "counter + 1 \<le> j \<and> j < k" by linarith
      then show "path_exists fs (numbered parent stem ext j)"
        using True k(3) by cases auto
    qed
    with k(1,2) step show ?thesis
      by (intro exI [of _ k]) simp
  qed
qed

lemma basename_no_slash: "CHR ''/'' \<notin> set (basename p)"
  by (auto simp: basename_def dest: set_takeWhileD)

lemma split_on_absent: "c \<notin> set n \<Longrightarrow> split_on c n = [n]"
  by (induction n) auto

lemma join_upload_dir:
  "CHR ''/'' \<notin> set n \<Longrightarrow> os_path_join UPLOAD_DIR n = ''uploads/'' @ n"
  by (cases n) (auto simp: os_path_join_def UPLOAD_DIR_def startswith_def endswith_def)

lemma Path_in_uploads:
  "CHR ''/'' \<notin> set n \<Longrightarrow> n \<noteq> [] \<Longrightarrow> n \<noteq> ''.'' \<Longrightarrow> Path (''uploads/'' @ n) = ([], [''uploads'', n])"
  by (simp add: Path_def path_root_def startswith_def split_on_absent)

lemma stem_suffix_name: "path_stem p @ path_suffix p = path_name p"
  by (simp add: path_stem_def path_suffix_def Let_def split: option.splits)

lemma write_file_lookup:
  "map_of (write_file p data fs) q = (if q = p then Some (File data) else map_of fs q)"
  by (simp add: write_file_def update_conv')

lemma unique_path_free: "map_of fs (unique_path fs target) = None"
  using unique_loop_free [of fs "path_parent (Path target)" "path_stem (Path target)"
      "path_suffix (Path target)" "Path target" 1]
  by (simp add: unique_path_def Let_def path_exists_def)

lemma unique_path_naming:
  "if map_of fs (path_str (Path target)) = None then unique_path fs target = path_str (Path target)
   else (\<exists>k\<ge>1. unique_path fs target
            = path_str (numbered (path_parent (Path target)) (path_stem (Path target))
                (path_suffix (Path target)) k)
          \<and> (\<forall>j. 1 \<le> j \<and> j < k \<longrightarrow>
                map_of fs (path_str (numbered (path_parent (Path target)) (path_stem (Path target))
                  (path_suffix (Path target)) j)) \<noteq> None))"
proof (cases "map_of fs (path_str (Path target)) = None")
  case True
  then show ?thesis
    by (simp add: unique_path_def Let_def unique_loop_keep path_exists_def)
next
  case False
  then have "path_exists fs (Path target)"
    by (simp add: path_exists_def)
  from unique_loop_numbered [OF this, of 1 "path_parent (Path target)" "path_stem (Path target)"
      "path_suffix (Path target)"]
  show ?thesis
    using False by (auto simp: unique_path_def Let_def path_exists_def)
qed


lemma audio_ext_length: "has_audio_ext l \<Longrightarrow> 4 \<le> length l"
  by (auto simp: has_audio_ext_def ALLOWED_AUDIO_EXTS_def endswith_def)

lemma audio_name_proper:
  assumes "has_audio_ext (lower n)"
  shows "n \<noteq> [] \<and> n \<noteq> ''.''"
  using audio_ext_length [OF assms] by (auto simp: lower_def)

lemma path_str_in_uploads:
  "CHR ''/'' \<notin> set n \<Longrightarrow> n \<noteq> [] \<Longrightarrow> n \<noteq> ''.'' \<Longrightarrow>
     path_str (Path (''uploads/'' @ n)) = ''uploads/'' @ n
     \<and> path_name (Path (''uploads/'' @ n)) = n
     \<and> path_parent (Path (''uploads/'' @ n)) = ([], [''uploads''])"
  using Path_in_uploads [of n] by (simp add: path_str_def path_name_def path_parent_def)

lemma numbered_in_uploads:
  "path_str (numbered ([], [''uploads'']) stem ext k) = ''uploads/'' @ stem @ ''_'' @ str_nat k @ ext"
  by (simp add: numbered_def path_str_child)

lemma lower_char_dot: "lower_char c = CHR ''.'' \<longleftrightarrow> c = CHR ''.''"
  by (simp add: lower_char_def split: if_splits)

lemma rfind_dot_last_dot:
  "CHR ''.'' \<notin> set r \<Longrightarrow> rfind_dot (s @ CHR ''.'' # r) = Some (length s)"
proof -
  assume r: "CHR ''.'' \<notin> set r"
  then have "takeWhile (\<lambda>c. c \<noteq> CHR ''.'') (rev r @ CHR ''.'' # rev s) = rev r"
    by (auto simp: takeWhile_tail)
  then show ?thesis
    by (simp add: rfind_dot_def)
qed

lemma audio_ext_shape:
  "e \<in> set ALLOWED_AUDIO_EXTS \<Longrightarrow> \<exists>r. e = CHR ''.'' # r \<and> r \<noteq> [] \<and> CHR ''.'' \<notin> set r"
  by (auto simp: ALLOWED_AUDIO_EXTS_def)

lemma lower_eq_dot_tail:
  assumes "lower t = CHR ''.'' # r" "CHR ''.'' \<notin> set r"
  shows "\<exists>r'. t = CHR ''.'' # r' \<and> length r' = length r \<and> CHR ''.'' \<notin> set r'"
proof -
  from assms(1) obtain c r' where t: "t = c # r'" "lower_char c = CHR ''.''" "map lower_char r' = r"
    by (auto simp: lower_def)
  have "CHR ''.'' \<notin> set r'"
  proof
    assume "CHR ''.'' \<in> set r'"
    then have "lower_char CHR ''.'' \<in> lower_char ` set r'" by (rule imageI)
    moreover have "lower_char CHR ''.'' = CHR ''.''" by (simp add: lower_char_dot)
    ultimately have "CHR ''.'' \<in> set (map lower_char r')" by simp
    with t(3) assms(2) show False by blast
  qed
  with t show ?thesis
    by (auto simp: lower_char_dot)
qed

lemma audio_rfind_dot:
  assumes e: "e \<in> set ALLOWED_AUDIO_EXTS" and ends: "endswith (lower n) e"
  shows "rfind_dot n = Some (length n - length e)"
proof -
  obtain r where r: "e = CHR ''.'' # r" "r \<noteq> []" "CHR ''.'' \<notin> set r"
    using audio_ext_shape [OF e] by blast
  define s where "s = take (length n - length e) n"
  define t where "t = drop (length n - length e) n"
  have n: "n = s @ t" by (simp add: s_def t_def)
  from ends have len: "length e \<le> length n" and "lower t = e"
    by (simp_all add: endswith_def lower_def t_def drop_map)
  then obtain r' where r': "t = CHR ''.'' # r'" "length r' = length r" "CHR ''.'' \<notin> set r'"
    using lower_eq_dot_tail r by blast
  have "length s = length n - length e"
    using len by (simp add: s_def)
  moreover have "rfind_dot n = Some (length s)"
    unfolding n r'(1) using r'(3) by (rule rfind_dot_last_dot)
  ultimately show ?thesis by simp
qed

lemma audio_suffix:
  assumes e: "e \<in> set ALLOWED_AUDIO_EXTS" and ends: "endswith (lower (path_name p)) e"
    and longer: "length e < length (path_name p)"
  shows "path_suffix p = drop (length (path_name p) - length e) (path_name p)"
    and "path_stem p = take (length (path_name p) - length e) (path_name p)"
proof -
  obtain r where r: "e = CHR ''.'' # r" "r \<noteq> []"
    using audio_ext_shape [OF e] by blast
  then have "2 \<le> length e" by (cases r) auto
  with longer have "0 < length (path_name p) - length e"
      "length (path_name p) - length e < length (path_name p) - 1"
    by linarith+
  then show "path_suffix p = drop (length (path_name p) - length e) (path_name p)"
    and "path_stem p = take (length (path_name p) - length e) (path_name p)"
    by (simp_all add: path_suffix_def path_stem_def Let_def audio_rfind_dot [OF e ends])
qed

text \<open>
  Claim C6. \<^verbatim>\<open>save_uploaded_file\<close> into the managed directory writes the bytes to a path
  that did not exist, and changes no other path, so every existing entry keeps its
  content. The path is the target \<^verbatim>\<open>uploads/<base name>\<close> when that is free; otherwise it
  is the numbered name \<^verbatim>\<open>stem_k.ext\<close> for the first \<open>k\<close> from 1 upwards whose name is
  free. For a plain audio file (a base name with a supported extension, compared in
  lower case) the target is the managed directory followed by the original base name,
  the number goes between stem and suffix of that name, and the suffix is the audio
  extension whenever the name is longer than its extension.
\<close>

theorem save_uploaded_file_never_overwrites:
  "(let base = Path (os_path_join UPLOAD_DIR (basename name));
        cand = (\<lambda>k. path_str (numbered (path_parent base) (path_stem base) (path_suffix base) k));
        saved = save_uploaded_file (name, data) UPLOAD_DIR fs;
        dest = fst saved;
        fs' = snd saved
    in map_of fs dest = None
     \<and> map_of fs' dest = Some (File data)
     \<and> (\<forall>p e. map_of fs p = Some e \<longrightarrow> map_of fs' p = Some e)
     \<and> (\<forall>p. p \<noteq> dest \<longrightarrow> map_of fs' p = map_of fs p)
     \<and> (map_of fs (path_str base) = None \<longrightarrow> dest = path_str base)
     \<and> (map_of fs (path_str base) \<noteq> None \<longrightarrow>
          (\<exists>k\<ge>1. dest = cand k \<and> (\<forall>j. 1 \<le> j \<and> j < k \<longrightarrow> map_of fs (cand j) \<noteq> None)))
     \<and> (has_audio_ext (lower (basename name)) \<longrightarrow>
          path_str base = ''uploads/'' @ basename name
          \<and> path_stem base @ path_suffix base = basename name
          \<and> (\<forall>k. cand k = ''uploads/'' @ path_stem base @ ''_'' @ str_nat k @ path_suffix base)
          \<and> (\<forall>ext \<in> set ALLOWED_AUDIO_EXTS.
                endswith (lower (basename name)) ext \<and> length ext < length (basename name) \<longrightarrow>
                lower (path_suffix base) = ext)))"
proof -
  define target where "target = os_path_join UPLOAD_DIR (basename name)"
  define base where "base = Path target"
  define cand where
    "cand = (\<lambda>k. path_str (numbered (path_parent base) (path_stem base) (path_suffix base) k))"
  define dest where "dest = unique_path fs target"
  define fs' where "fs' = write_file dest data fs"
  have saved: "save_uploaded_file (name, data) UPLOAD_DIR fs = (dest, fs')"
    by (simp add: save_uploaded_file_def Let_def dest_def fs'_def target_def)
  have free: "map_of fs dest = None"
    unfolding dest_def by (rule unique_path_free)
  have written: "map_of fs' dest = Some (File data)"
    by (simp add: fs'_def write_file_lookup)
  have others: "\<forall>p. p \<noteq> dest \<longrightarrow> map_of fs' p = map_of fs p"
    by (simp add: fs'_def write_file_lookup)
  have kept: "\<forall>p e. map_of fs p = Some e \<longrightarrow> map_of fs' p = Some e"
    using free by (auto simp: fs'_def write_file_lookup)
  have naming: "if map_of fs (path_str base) = None then dest = path_str base
     else (\<exists>k\<ge>1. dest = cand k \<and> (\<forall>j. 1 \<le> j \<and> j < k \<longrightarrow> map_of fs (cand j) \<noteq> None))"
    using unique_path_naming [of fs target] unfolding dest_def base_def cand_def .
  have audio: "path_str base = ''uploads/'' @ basename name
      \<and> path_stem base @ path_suffix base = basename name
      \<and> (\<forall>k. cand k = ''uploads/'' @ path_stem base @ ''_'' @ str_nat k @ path_suffix base)
      \<and> (\<forall>ext \<in> set ALLOWED_AUDIO_EXTS.
            endswith (lower (basename name)) ext \<and> length ext < length (basename name) \<longrightarrow>
            lower (path_suffix base) = ext)"
    if "has_audio_ext (lower (basename name))"
  proof -
    have n: "CHR ''/'' \<notin> set (basename name)" "basename name \<noteq> []" "basename name \<noteq> ''.''"
      using audio_name_proper [OF that] basename_no_slash by auto
    have t: "target = ''uploads/'' @ basename name"
      unfolding target_def using n(1) by (rule join_upload_dir)
    have b: "path_str base = ''uploads/'' @ basename name" "path_name base = basename name"
        "path_parent base = ([], [''uploads''])"
      unfolding base_def t using path_str_in_uploads [OF n] by simp_all
    have "lower (path_suffix base) = ext"
      if "ext \<in> set ALLOWED_AUDIO_EXTS" "endswith (lower (basename name)) ext"
        "length ext < length (basename name)" for ext
    proof -
      have "path_suffix base = drop (length (basename name) - length ext) (basename name)"
        using audio_suffix(1) [of ext base] that b(2) by simp
      with that(2) show ?thesis
        by (simp add: endswith_def lower_def drop_map)
    qed
    then show ?thesis
      using b stem_suffix_name [of base] by (simp add: cand_def numbered_in_uploads)
  qed
  have fst_saved: "fst (save_uploaded_file (name, data) UPLOAD_DIR fs) = dest"
    and snd_saved: "snd (save_uploaded_file (name, data) UPLOAD_DIR fs) = fs'"
    by (simp_all add: saved)
  show ?thesis
    unfolding Let_def fst_saved snd_saved
    using free written others kept naming audio
    unfolding cand_def base_def target_def
    by (simp split: if_splits)
qed


lemma demo_save_alice:
  "save_uploaded_file (''alice.wav'', ''RIFF-3'') UPLOAD_DIR demo_uploads
     = (''uploads/alice_2.wav'', demo_uploads @ [(''uploads/alice_2.wav'', File ''RIFF-3'')])"
  by code_simp

lemma demo_save_bob:
  "save_uploaded_file (''bob.mp3'', ''ID3-1'') UPLOAD_DIR demo_uploads
     = (''uploads/bob.mp3'', demo_uploads @ [(''uploads/bob.mp3'', File ''ID3-1'')])"
  by code_simp

lemma demo_audio_names:
  "has_audio_ext (lower (basename ''alice.wav''))" "has_audio_ext (lower (basename ''bob.mp3''))"
  "endswith (lower (basename ''alice.wav'')) ''.wav''"
  "path_suffix (Path (os_path_join UPLOAD_DIR (basename ''alice.wav''))) = ''.wav''"
  by code_simp+

theorem save_uploaded_file_never_overwrites_witness:
  "has_audio_ext (lower (basename ''alice.wav''))
   \<and> map_of demo_uploads ''uploads/alice.wav'' = Some (File ''RIFF-1'')
   \<and> map_of demo_uploads ''uploads/alice_1.wav'' = Some (File ''RIFF-2'')
   \<and> endswith (lower (basename ''alice.wav'')) ''.wav''
   \<and> path_suffix (Path (os_path_join UPLOAD_DIR (basename ''alice.wav''))) = ''.wav''
   \<and> save_uploaded_file (''alice.wav'', ''RIFF-3'') UPLOAD_DIR demo_uploads
       = (''uploads/alice_2.wav'', demo_uploads @ [(''uploads/alice_2.wav'', File ''RIFF-3'')])
   \<and> map_of (snd (save_uploaded_file (''alice.wav'', ''RIFF-3'') UPLOAD_DIR demo_uploads))
         ''uploads/alice.wav'' = Some (File ''RIFF-1'')
   \<and> has_audio_ext (lower (basename ''bob.mp3''))
   \<and> map_of demo_uploads ''uploads/bob.mp3'' = None
   \<and> fst (save_uploaded_file (''bob.mp3'', ''ID3-1'') UPLOAD_DIR demo_uploads) = ''uploads/bob.mp3''"
  using save_uploaded_file_never_overwrites [of "''alice.wav''" "''RIFF-3''" demo_uploads]
    save_uploaded_file_never_overwrites [of "''bob.mp3''" "''ID3-1''" demo_uploads]
  by (simp add: demo_save_alice demo_save_bob demo_audio_names) (simp add: demo_uploads_def)

section \<open>Extracting an archive\<close>

text \<open>
  One member of the archive is dealt with in one of three ways, and whatever the way,
  the loop goes on with the members after it.
\<close>


lemma basename_empty_not_audio: "basename m = [] \<Longrightarrow> \<not> has_audio_ext (lower (basename m))"
  using audio_ext_length [of "lower (basename m)"] by (auto simp: lower_def)

lemma extract_members_step:
  "extract_members zread store dest_dir (m # ms) saved fs =
     (case outcome_of zread store m of
        Stored data \<Rightarrow>
          extract_members zread store dest_dir ms
            (saved @ [fst (save_uploaded_file (m, data) dest_dir fs)])
            (snd (save_uploaded_file (m, data) dest_dir fs))
      | Cut_off part \<Rightarrow>
          extract_members zread store dest_dir ms saved
            (snd (save_uploaded_file (m, part) dest_dir fs))
      | Nothing \<Rightarrow> extract_members zread store dest_dir ms saved fs)"
proof (cases "wanted_member m")
  case False
  then have "extract_members zread store dest_dir (m # ms) saved fs
      = extract_members zread store dest_dir ms saved fs"
    using basename_empty_not_audio [of m] by (auto simp: wanted_member_def Let_def)
  with False show ?thesis
    by (simp add: outcome_of_def)
next
  case True
  then have w: "\<not> endswith m ''/''" "\<not> startswith m ''__MACOSX/''"
      "has_audio_ext (lower (basename m))" "basename m \<noteq> []"
    using basename_empty_not_audio [of m] by (auto simp: wanted_member_def)
  show ?thesis
  proof (cases "zread m")
    case (Inl e)
    with w True show ?thesis
      by (simp add: outcome_of_def Let_def)
  next
    case (Inr data)
    show ?thesis
    proof (cases "store m")
      case None
      with Inr w True show ?thesis
        by (simp add: outcome_of_def Let_def save_uploaded_file_def)
    next
      case (Some fault)
      with Inr w True show ?thesis
        by (cases fault) (simp_all add: outcome_of_def Let_def save_uploaded_file_def)
    qed
  qed
qed

declare extract_members.simps(2) [simp del]

lemma audio_entries_Nil: "audio_entries zread store [] = []"
  by (simp add: audio_entries_def)

lemma audio_entries_Cons:
  "audio_entries zread store (m # ms) =
     (case outcome_of zread store m of Stored data \<Rightarrow> [(m, data)] | _ \<Rightarrow> [])
     @ audio_entries zread store ms"
  by (simp add: audio_entries_def)

lemma save_uploaded_file_step:
  assumes "save_uploaded_file up dest_dir fs = (dest, fs1)"
  shows "map_of fs dest = None" "map_of fs1 dest = Some (File (snd up))"
    "\<And>p e. map_of fs p = Some e \<Longrightarrow> map_of fs1 p = Some e"
proof -
  from assms have d: "dest = unique_path fs (os_path_join dest_dir (basename (fst up)))"
    and f: "fs1 = write_file dest (snd up) fs"
    by (auto simp: save_uploaded_file_def Let_def)
  show free: "map_of fs dest = None"
    unfolding d by (rule unique_path_free)
  show "map_of fs1 dest = Some (File (snd up))"
    by (simp add: f write_file_lookup)
  show "map_of fs1 p = Some e" if "map_of fs p = Some e" for p e
    using that free by (auto simp: f write_file_lookup)
qed

lemma save_keeps:
  "map_of fs p = Some e \<Longrightarrow> map_of (snd (save_uploaded_file up dest_dir fs)) p = Some e"
  using save_uploaded_file_step(3) [of up dest_dir fs "fst (save_uploaded_file up dest_dir fs)"
      "snd (save_uploaded_file up dest_dir fs)" p e]
  by simp

lemma save_stores:
  "map_of (snd (save_uploaded_file up dest_dir fs)) (fst (save_uploaded_file up dest_dir fs))
     = Some (File (snd up))"
  using save_uploaded_file_step(2) [of up dest_dir fs "fst (save_uploaded_file up dest_dir fs)"
      "snd (save_uploaded_file up dest_dir fs)"]
  by simp

lemma extract_members_keeps:
  "map_of fs p = Some e \<Longrightarrow>
     map_of (snd (extract_members zread store dest_dir ms saved fs)) p = Some e"
proof (induction ms arbitrary: saved fs)
  case Nil
  then show ?case by simp
next
  case (Cons m ms)
  show ?case
    unfolding extract_members_step
    by (cases "outcome_of zread store m") (simp_all add: Cons.IH Cons.prems save_keeps)
qed

lemma extract_members_saved:
  "fst (extract_members zread store dest_dir ms saved fs)
     = saved @ fst (extract_members zread store dest_dir ms [] fs)
   \<and> snd (extract_members zread store dest_dir ms saved fs)
     = snd (extract_members zread store dest_dir ms [] fs)"
proof (induction ms arbitrary: saved fs)
  case Nil
  then show ?case by simp
next
  case (Cons m ms)
  show ?case
  proof (cases "outcome_of zread store m")
    case (Stored data)
    then show ?thesis
      unfolding extract_members_step
      using Cons.IH [of "saved @ [fst (save_uploaded_file (m, data) dest_dir fs)]"]
        Cons.IH [of "[fst (save_uploaded_file (m, data) dest_dir fs)]"]
      by simp
  next
    case (Cut_off part)
    then show ?thesis
      unfolding extract_members_step using Cons.IH [of saved] by simp
  next
    case Nothing
    then show ?thesis
      unfolding extract_members_step using Cons.IH [of saved] by simp
  qed
qed

lemma extract_members_length:
  "length (fst (extract_members zread store dest_dir ms [] fs))
     = length (audio_entries zread store ms)"
proof (induction ms arbitrary: fs)
  case Nil
  then show ?case by (simp add: audio_entries_Nil)
next
  case (Cons m ms)
  show ?case
  proof (cases "outcome_of zread store m")
    case (Stored data)
    then show ?thesis
      unfolding extract_members_step audio_entries_Cons
      using extract_members_saved [of zread store dest_dir ms
          "[fst (save_uploaded_file (m, data) dest_dir fs)]"]
      by (simp add: Cons.IH)
  next
    case (Cut_off part)
    then show ?thesis
      unfolding extract_members_step audio_entries_Cons by (simp add: Cons.IH)
  next
    case Nothing
    then show ?thesis
      unfolding extract_members_step audio_entries_Cons by (simp add: Cons.IH)
  qed
qed

lemma extract_members_stored:
  "i < length (audio_entries zread store ms) \<Longrightarrow>
     map_of (snd (extract_members zread store dest_dir ms [] fs))
       (fst (extract_members zread store dest_dir ms [] fs) ! i)
       = Some (File (snd (audio_entries zread store ms ! i)))"
proof (induction ms arbitrary: fs i)
  case Nil
  then show ?case by (simp add: audio_entries_Nil)
next
  case (Cons m ms)
  show ?case
  proof (cases "outcome_of zread store m")
    case (Stored data)
    define dest where "dest = fst (save_uploaded_file (m, data) dest_dir fs)"
    define fs1 where "fs1 = snd (save_uploaded_file (m, data) dest_dir fs)"
    have step: "extract_members zread store dest_dir (m # ms) [] fs
        = extract_members zread store dest_dir ms [dest] fs1"
      unfolding extract_members_step by (simp add: Stored dest_def fs1_def)
    have sv: "fst (extract_members zread store dest_dir ms [dest] fs1)
        = dest # fst (extract_members zread store dest_dir ms [] fs1)"
      "snd (extract_members zread store dest_dir ms [dest] fs1)
        = snd (extract_members zread store dest_dir ms [] fs1)"
      using extract_members_saved [of zread store dest_dir ms "[dest]" fs1] by simp_all
    show ?thesis
    proof (cases i)
      case 0
      have "map_of fs1 dest = Some (File data)"
        unfolding dest_def fs1_def using save_stores [of "(m, data)" dest_dir fs] by simp
      then have "map_of (snd (extract_members zread store dest_dir ms [] fs1)) dest
          = Some (File data)"
        by (rule extract_members_keeps)
      with 0 show ?thesis
        by (simp add: step sv audio_entries_Cons Stored)
    next
      case (Suc j)
      with Cons.prems have "j < length (audio_entries zread store ms)"
        by (simp add: audio_entries_Cons Stored)
      from Cons.IH [OF this, of fs1] Suc show ?thesis
        by (simp add: step sv audio_entries_Cons Stored)
    qed
  next
    case (Cut_off part)
    with Cons.prems have "i < length (audio_entries zread store ms)"
      by (simp add: audio_entries_Cons)
    from Cons.IH [OF this] Cut_off show ?thesis
      unfolding extract_members_step audio_entries_Cons by simp
  next
    case Nothing
    with Cons.prems have "i < length (audio_entries zread store ms)"
      by (simp add: audio_entries_Cons)
    from Cons.IH [OF this] Nothing show ?thesis
      unfolding extract_members_step audio_entries_Cons by simp
  qed
qed

lemma extract_members_skip_nothing:
  "extract_members zread store dest_dir ms saved fs
     = extract_members zread store dest_dir
         (filter (\<lambda>m. outcome_of zread store m \<noteq> Nothing) ms) saved fs"
proof (induction ms arbitrary: saved fs)
  case Nil
  then show ?case by simp
next
  case (Cons m ms)
  show ?case
  proof (cases "outcome_of zread store m = Nothing")
    case True
    then show ?thesis
      by (simp add: extract_members_step [of zread store dest_dir m] Cons.IH [symmetric]
          del: extract_members.simps)
  next
    case False
    then show ?thesis
      by (cases "outcome_of zread store m")
         (simp_all add: extract_members_step [of zread store dest_dir m] Cons.IH [symmetric]
          del: extract_members.simps)
  qed
qed


lemma save_free:
  "map_of fs (fst (save_uploaded_file up dest_dir fs)) = None"
  using save_uploaded_file_step(1) [of up dest_dir fs "fst (save_uploaded_file up dest_dir fs)"
      "snd (save_uploaded_file up dest_dir fs)"]
  by simp

lemma save_absent:
  "map_of (snd (save_uploaded_file up dest_dir fs)) p = None \<Longrightarrow> map_of fs p = None"
  using save_keeps [of fs p _ up dest_dir] by (cases "map_of fs p") auto

lemma extract_members_fresh:
  "p \<in> set (fst (extract_members zread store dest_dir ms [] fs)) \<Longrightarrow> map_of fs p = None"
proof (induction ms arbitrary: fs)
  case Nil
  then show ?case by simp
next
  case (Cons m ms)
  show ?case
  proof (cases "outcome_of zread store m")
    case (Stored data)
    define dest where "dest = fst (save_uploaded_file (m, data) dest_dir fs)"
    define fs1 where "fs1 = snd (save_uploaded_file (m, data) dest_dir fs)"
    have "fst (extract_members zread store dest_dir (m # ms) [] fs)
        = dest # fst (extract_members zread store dest_dir ms [] fs1)"
      unfolding extract_members_step
      using extract_members_saved [of zread store dest_dir ms "[dest]" fs1]
      by (simp add: Stored dest_def fs1_def)
    with Cons.prems consider "p = dest"
      | "p \<in> set (fst (extract_members zread store dest_dir ms [] fs1))"
      by auto
    then show ?thesis
    proof cases
      case 1
      then show ?thesis
        unfolding dest_def by (simp add: save_free)
    next
      case 2
      then have "map_of fs1 p = None" by (rule Cons.IH)
      then show ?thesis
        unfolding fs1_def by (rule save_absent)
    qed
  next
    case (Cut_off part)
    with Cons.prems
    have "p \<in> set (fst (extract_members zread store dest_dir ms []
        (snd (save_uploaded_file (m, part) dest_dir fs))))"
      unfolding extract_members_step by simp
    then have "map_of (snd (save_uploaded_file (m, part) dest_dir fs)) p = None"
      by (rule Cons.IH)
    then show ?thesis by (rule save_absent)
  next
    case Nothing
    with Cons.prems
    have "p \<in> set (fst (extract_members zread store dest_dir ms [] fs))"
      unfolding extract_members_step by simp
    then show ?thesis by (rule Cons.IH)
  qed
qed

lemma extract_members_distinct:
  "distinct (fst (extract_members zread store dest_dir ms [] fs))"
proof (induction ms arbitrary: fs)
  case Nil
  then show ?case by simp
next
  case (Cons m ms)
  show ?case
  proof (cases "outcome_of zread store m")
    case (Stored data)
    define dest where "dest = fst (save_uploaded_file (m, data) dest_dir fs)"
    define fs1 where "fs1 = snd (save_uploaded_file (m, data) dest_dir fs)"
    have eq: "fst (extract_members zread store dest_dir (m # ms) [] fs)
        = dest # fst (extract_members zread store dest_dir ms [] fs1)"
      unfolding extract_members_step
      using extract_members_saved [of zread store dest_dir ms "[dest]" fs1]
      by (simp add: Stored dest_def fs1_def)
    have "map_of fs1 dest = Some (File data)"
      unfolding dest_def fs1_def using save_stores [of "(m, data)" dest_dir fs] by simp
    then have "dest \<notin> set (fst (extract_members zread store dest_dir ms [] fs1))"
      using extract_members_fresh [of dest zread store dest_dir ms fs1] by auto
    then show ?thesis
      by (simp add: eq Cons.IH)
  next
    case (Cut_off part)
    then show ?thesis
      unfolding extract_members_step by (simp add: Cons.IH)
  next
    case Nothing
    then show ?thesis
      unfolding extract_members_step by (simp add: Cons.IH)
  qed
qed

lemma save_all_Cons:
  "save_all (up # ups) dest_dir fs =
     (fst (save_uploaded_file up dest_dir fs)
        # fst (save_all ups dest_dir (snd (save_uploaded_file up dest_dir fs))),
      snd (save_all ups dest_dir (snd (save_uploaded_file up dest_dir fs))))"
  by (simp add: Let_def case_prod_unfold)

lemma extract_members_save_all:
  "list_all (\<lambda>m. \<forall>part. outcome_of zread store m \<noteq> Cut_off part) ms \<Longrightarrow>
     extract_members zread store dest_dir ms [] fs
       = save_all (audio_entries zread store ms) dest_dir fs"
proof (induction ms arbitrary: fs)
  case Nil
  then show ?case by (simp add: audio_entries_Nil)
next
  case (Cons m ms)
  then have rest: "list_all (\<lambda>m. \<forall>part. outcome_of zread store m \<noteq> Cut_off part) ms"
    and here: "\<And>part. outcome_of zread store m \<noteq> Cut_off part"
    by simp_all
  note IH = Cons.IH [OF rest]
  show ?case
  proof (cases "outcome_of zread store m")
    case (Stored data)
    define dest where "dest = fst (save_uploaded_file (m, data) dest_dir fs)"
    define fs1 where "fs1 = snd (save_uploaded_file (m, data) dest_dir fs)"
    have "extract_members zread store dest_dir (m # ms) [] fs
        = extract_members zread store dest_dir ms [dest] fs1"
      unfolding extract_members_step by (simp add: Stored dest_def fs1_def)
    also have "\<dots> = (dest # fst (extract_members zread store dest_dir ms [] fs1),
        snd (extract_members zread store dest_dir ms [] fs1))"
      using extract_members_saved [of zread store dest_dir ms "[dest]" fs1]
      by (simp add: prod_eq_iff)
    also have "\<dots> = save_all (audio_entries zread store (m # ms)) dest_dir fs"
      by (simp add: IH audio_entries_Cons Stored save_all_Cons dest_def fs1_def
          del: save_all.simps(2))
    finally show ?thesis .
  next
    case (Cut_off part)
    with here [of part] show ?thesis by simp
  next
    case Nothing
    then show ?thesis
      unfolding extract_members_step by (simp add: IH audio_entries_Cons)
  qed
qed

lemma outcome_skipped:
  "endswith m ''/'' \<or> startswith m ''__MACOSX/'' \<or> \<not> has_audio_ext (lower (basename m))
     \<Longrightarrow> outcome_of zread store m = Nothing"
  by (auto simp: outcome_of_def wanted_member_def)

lemma outcome_failed:
  "(\<exists>e. zread m = Inl e) \<or> store m = Some Refused \<Longrightarrow> outcome_of zread store m = Nothing"
  by (auto simp: outcome_of_def split: sum.splits)

text \<open>
  Claim C7. Extraction goes through the archive member by member. A directory entry,
  an entry under the macOS metadata prefix and an entry whose base name has no
  supported audio extension are skipped; so is an entry whose read raises, or whose
  file the file system refuses to make: for each of them extraction goes on with the
  entries after it as if the entry were not in the archive. Every other entry is
  saved by the naming rule of \<^verbatim>\<open>save_uploaded_file\<close>; if its write breaks off, the
  cut-off file stays, its path is not returned, and extraction goes on as well. So
  one path is returned per entry stored whole, the returned paths are pairwise
  different and none existed before, the bytes of each such entry are at its path in
  the end, and every entry the file system had before keeps its content. When no
  write breaks off, extraction is saving the stored entries one after the other.
\<close>

theorem extract_audio_from_zip_spec:
  "(let zread = snd z;
        entries = audio_entries zread store (fst z);
        result = extract_audio_from_zip z store dest_dir fs
    in (\<forall>m ms saved fs0.
          extract_members zread store dest_dir (m # ms) saved fs0 =
            (case outcome_of zread store m of
               Stored data \<Rightarrow>
                 extract_members zread store dest_dir ms
                   (saved @ [fst (save_uploaded_file (m, data) dest_dir fs0)])
                   (snd (save_uploaded_file (m, data) dest_dir fs0))
             | Cut_off part \<Rightarrow>
                 extract_members zread store dest_dir ms saved
                   (snd (save_uploaded_file (m, part) dest_dir fs0))
             | Nothing \<Rightarrow> extract_members zread store dest_dir ms saved fs0))
     \<and> (\<forall>m. endswith m ''/'' \<or> startswith m ''__MACOSX/''
              \<or> \<not> has_audio_ext (lower (basename m))
              \<or> (\<exists>e. zread m = Inl e) \<or> store m = Some Refused
            \<longrightarrow> outcome_of zread store m = Nothing)
     \<and> result = extract_audio_from_zip
                  (filter (\<lambda>m. outcome_of zread store m \<noteq> Nothing) (fst z), zread)
                  store dest_dir fs
     \<and> (list_all (\<lambda>m. \<forall>part. outcome_of zread store m \<noteq> Cut_off part) (fst z)
          \<longrightarrow> result = save_all entries dest_dir fs)
     \<and> length (fst result) = length entries
     \<and> distinct (fst result)
     \<and> (\<forall>i < length entries.
           map_of fs (fst result ! i) = None
         \<and> map_of (snd result) (fst result ! i) = Some (File (snd (entries ! i))))
     \<and> (\<forall>p e. map_of fs p = Some e \<longrightarrow> map_of (snd result) p = Some e))"
proof -
  let ?zread = "snd z"
  let ?result = "extract_members ?zread store dest_dir (fst z) [] fs"
  let ?entries = "audio_entries ?zread store (fst z)"
  have skip: "endswith m ''/'' \<or> startswith m ''__MACOSX/''
        \<or> \<not> has_audio_ext (lower (basename m))
        \<or> (\<exists>e. ?zread m = Inl e) \<or> store m = Some Refused
      \<longrightarrow> outcome_of ?zread store m = Nothing" for m
    using outcome_skipped [of m ?zread store] outcome_failed [of ?zread m store] by blast
  have filtered: "?result = extract_members ?zread store dest_dir
      (filter (\<lambda>m. outcome_of ?zread store m \<noteq> Nothing) (fst z)) [] fs"
    by (rule extract_members_skip_nothing)
  have whole: "list_all (\<lambda>m. \<forall>part. outcome_of ?zread store m \<noteq> Cut_off part) (fst z)
      \<longrightarrow> ?result = save_all ?entries dest_dir fs"
    using extract_members_save_all [of ?zread store "fst z" dest_dir fs] by blast
  have len: "length (fst ?result) = length ?entries"
    by (rule extract_members_length)
  have dist: "distinct (fst ?result)"
    by (rule extract_members_distinct)
  have stored: "map_of fs (fst ?result ! i) = None
      \<and> map_of (snd ?result) (fst ?result ! i) = Some (File (snd (?entries ! i)))"
    if "i < length ?entries" for i
  proof
    from that len have "fst ?result ! i \<in> set (fst ?result)" by simp
    then show "map_of fs (fst ?result ! i) = None" by (rule extract_members_fresh)
    from that show "map_of (snd ?result) (fst ?result ! i) = Some (File (snd (?entries ! i)))"
      by (rule extract_members_stored)
  qed
  have keeps: "map_of fs p = Some e \<longrightarrow> map_of (snd ?result) p = Some e" for p e
    using extract_members_keeps [of fs p e ?zread store dest_dir "fst z" "[]"] by blast
  show ?thesis
    unfolding Let_def extract_audio_from_zip_def fst_conv snd_conv
    using extract_members_step [of ?zread store dest_dir] skip filtered whole len dist stored keeps
    by blast
qed

lemma demo_entries:
  "audio_entries (snd demo_zip) demo_store (fst demo_zip) =
     [(''bob.mp3'', ''bytes of bob.mp3''), (''data/Eve.WAV'', ''bytes of data/Eve.WAV''),
      (''x/bob.mp3'', ''bytes of x/bob.mp3'')]"
  by code_simp

lemma demo_outcomes:
  "map (outcome_of (snd demo_zip) demo_store) (fst demo_zip) =
     [Stored ''bytes of bob.mp3'', Nothing, Nothing, Nothing, Stored ''bytes of data/Eve.WAV'',
      Nothing, Nothing, Cut_off ''bytes'', Stored ''bytes of x/bob.mp3'']"
  by code_simp

lemma demo_extract:
  "extract_audio_from_zip demo_zip demo_store UPLOAD_DIR [(''uploads'', Dir)] =
     ([''uploads/bob.mp3'', ''uploads/Eve.WAV'', ''uploads/bob_1.mp3''],
      [(''uploads'', Dir), (''uploads/bob.mp3'', File ''bytes of bob.mp3''),
       (''uploads/Eve.WAV'', File ''bytes of data/Eve.WAV''),
       (''uploads/huge.flac'', File ''bytes''),
       (''uploads/bob_1.mp3'', File ''bytes of x/bob.mp3'')])"
  by code_simp

lemma demo_extract_whole:
  "extract_audio_from_zip demo_zip no_store_fault UPLOAD_DIR [(''uploads'', Dir)] =
     ([''uploads/bob.mp3'', ''uploads/Eve.WAV'', ''uploads/refused.ogg'', ''uploads/huge.flac'',
       ''uploads/bob_1.mp3''],
      [(''uploads'', Dir), (''uploads/bob.mp3'', File ''bytes of bob.mp3''),
       (''uploads/Eve.WAV'', File ''bytes of data/Eve.WAV''),
       (''uploads/refused.ogg'', File ''bytes of data/refused.ogg''),
       (''uploads/huge.flac'', File ''bytes of data/huge.flac''),
       (''uploads/bob_1.mp3'', File ''bytes of x/bob.mp3'')])"
  by code_simp

lemma demo_whole:
  "list_all (\<lambda>m. \<forall>part. outcome_of (snd demo_zip) no_store_fault m \<noteq> Cut_off part)
     (fst demo_zip)"
  by (simp add: outcome_of_def no_store_fault_def demo_zip_def split: sum.splits)


theorem extract_audio_from_zip_spec_witness:
  "map (outcome_of (snd demo_zip) demo_store) (fst demo_zip) =
     [Stored ''bytes of bob.mp3'', Nothing, Nothing, Nothing, Stored ''bytes of data/Eve.WAV'',
      Nothing, Nothing, Cut_off ''bytes'', Stored ''bytes of x/bob.mp3'']
   \<and> snd demo_zip ''data/bad.wav'' = Inl ''Bad CRC-32''
   \<and> demo_store ''data/refused.ogg'' = Some Refused
   \<and> audio_entries (snd demo_zip) demo_store (fst demo_zip) =
       [(''bob.mp3'', ''bytes of bob.mp3''), (''data/Eve.WAV'', ''bytes of data/Eve.WAV''),
        (''x/bob.mp3'', ''bytes of x/bob.mp3'')]
   \<and> extract_audio_from_zip demo_zip demo_store UPLOAD_DIR [(''uploads'', Dir)] =
       ([''uploads/bob.mp3'', ''uploads/Eve.WAV'', ''uploads/bob_1.mp3''],
        [(''uploads'', Dir), (''uploads/bob.mp3'', File ''bytes of bob.mp3''),
         (''uploads/Eve.WAV'', File ''bytes of data/Eve.WAV''),
         (''uploads/huge.flac'', File ''bytes''),
         (''uploads/bob_1.mp3'', File ''bytes of x/bob.mp3'')])
   \<and> extract_audio_from_zip
         (filter (\<lambda>m. outcome_of (snd demo_zip) demo_store m \<noteq> Nothing) (fst demo_zip),
          snd demo_zip) demo_store UPLOAD_DIR [(''uploads'', Dir)]
       = extract_audio_from_zip demo_zip demo_store UPLOAD_DIR [(''uploads'', Dir)]
   \<and> map_of [(''uploads'', Dir)] ''uploads'' = Some Dir
   \<and> list_all (\<lambda>m. \<forall>part. outcome_of (snd demo_zip) no_store_fault m \<noteq> Cut_off part)
         (fst demo_zip)
   \<and> save_all (audio_entries (snd demo_zip) no_store_fault (fst demo_zip)) UPLOAD_DIR
         [(''uploads'', Dir)]
       = ([''uploads/bob.mp3'', ''uploads/Eve.WAV'', ''uploads/refused.ogg'',
           ''uploads/huge.flac'', ''uploads/bob_1.mp3''],
          [(''uploads'', Dir), (''uploads/bob.mp3'', File ''bytes of bob.mp3''),
           (''uploads/Eve.WAV'', File ''bytes of data/Eve.WAV''),
           (''uploads/refused.ogg'', File ''bytes of data/refused.ogg''),
           (''uploads/huge.flac'', File ''bytes of data/huge.flac''),
           (''uploads/bob_1.mp3'', File ''bytes of x/bob.mp3'')])"
proof -
  note faulty = extract_audio_from_zip_spec
    [of demo_zip demo_store UPLOAD_DIR "[(''uploads'', Dir)]", unfolded Let_def]
  note whole = extract_audio_from_zip_spec
    [of demo_zip no_store_fault UPLOAD_DIR "[(''uploads'', Dir)]", unfolded Let_def]
  have filtered: "extract_audio_from_zip
      (filter (\<lambda>m. outcome_of (snd demo_zip) demo_store m \<noteq> Nothing) (fst demo_zip),
       snd demo_zip) demo_store UPLOAD_DIR [(''uploads'', Dir)]
      = extract_audio_from_zip demo_zip demo_store UPLOAD_DIR [(''uploads'', Dir)]"
    using faulty [THEN conjunct2, THEN conjunct2, THEN conjunct1] by simp
  have saved: "save_all (audio_entries (snd demo_zip) no_store_fault (fst demo_zip)) UPLOAD_DIR
      [(''uploads'', Dir)]
      = extract_audio_from_zip demo_zip no_store_fault UPLOAD_DIR [(''uploads'', Dir)]"
    using whole [THEN conjunct2, THEN conjunct2, THEN conjunct2, THEN conjunct1] demo_whole
    by simp
  have faults: "snd demo_zip ''data/bad.wav'' = Inl ''Bad CRC-32''"
    "demo_store ''data/refused.ogg'' = Some Refused"
    by (simp_all add: demo_zip_def demo_store_def)
  show ?thesis
    unfolding filtered saved demo_outcomes demo_entries demo_extract demo_extract_whole
    using faults demo_whole by simp
qed

section \<open>The query file of a match\<close>

lemma delete_absent: "k \<notin> fst ` set al \<Longrightarrow> AList.delete k al = al"
  by (induction al) auto

lemma delete_update_absent: "k \<notin> fst ` set al \<Longrightarrow> AList.delete k (AList.update k v al) = al"
  by (induction al) (auto simp: delete_absent)

lemma os_remove_written:
  "map_of fs p = None \<Longrightarrow>
     os_remove fault p (write_file p data fs) = (if fault = None then fs else write_file p data fs)"
  by (cases fault)
     (simp_all add: os_remove_def write_file_def update_conv' delete_update_absent
        map_of_eq_None_iff)

text \<open>
  The file system after the branch. The query file is gone, and the file system what
  it was, exactly when no exception left the branch and \<^verbatim>\<open>os.remove\<close> did not fail;
  otherwise the query file is still there.
\<close>

lemma find_data_match_filesystem:
  "snd (find_data_match load mfcc abspath db_fault ui_fault remove_fault db fs (Some up)
          match_mode top_k threshold)
     = (if isl (fst (find_data_match load mfcc abspath db_fault ui_fault remove_fault db fs
                       (Some up) match_mode top_k threshold))
           \<or> remove_fault \<noteq> None
        then snd (save_uploaded_file up UPLOAD_DIR fs) else fs)"
proof -
  define query_path where
    "query_path = unique_path fs (os_path_join UPLOAD_DIR (basename (fst up)))"
  define fs1 where "fs1 = write_file query_path (snd up) fs"
  have saved: "save_uploaded_file up UPLOAD_DIR fs = (query_path, fs1)"
    by (simp add: save_uploaded_file_def Let_def query_path_def fs1_def)
  have free: "map_of fs query_path = None"
    unfolding query_path_def by (rule unique_path_free)
  note removed = os_remove_written [OF free, of _ "snd up", folded fs1_def]
  show ?thesis
    by (simp add: find_data_match_def saved removed Let_def split: option.splits)
qed

lemma demo_query_saved:
  "save_uploaded_file (''alice.wav'', ''RIFF-query'') UPLOAD_DIR demo_uploads
     = (''uploads/alice_2.wav'', demo_uploads @ [(''uploads/alice_2.wav'', File ''RIFF-query'')])"
  by code_simp

lemma demo_database_candidates:
  "match_candidates demo_abspath demo_catalog fs1 Database = [(''Alice'', ''/srv/uploads/alice.wav'')]"
  by (simp add: match_candidates_def get_all_db_rows_def demo_catalog_def)

lemma demo_fingerprints:
  "load_mfcc_mean (demo_read (demo_uploads @ [(''uploads/alice_2.wav'', File ''RIFF-query'')]))
      demo_mfcc ''uploads/alice_2.wav'' 20 = Some (replicate 20 (Finite 11))"
  "load_mfcc_mean (demo_read (demo_uploads @ [(''uploads/alice_2.wav'', File ''RIFF-query'')]))
      demo_mfcc ''/srv/uploads/alice.wav'' 20 = Some (replicate 20 (Finite 7))"
  by (simp_all add: load_mfcc_mean_def demo_read_def demo_uploads_def demo_mfcc_def
      startswith_def np_mean_axis1_def fsum_def)

lemma demo_run_compare:
  "compare_voice (demo_read (demo_uploads @ [(''uploads/alice_2.wav'', File ''RIFF-query'')]))
      demo_mfcc ''uploads/alice_2.wav'' ''/srv/uploads/alice.wav'' = Some (Finite (sqrt 320))"
  by (simp add: compare_voice_cases demo_fingerprints np_subtract_def np_linalg_norm_def
      fsum_replicate_Finite fsub_def)

lemma demo_query_removed:
  "os_remove None ''uploads/alice_2.wav''
      (demo_uploads @ [(''uploads/alice_2.wav'', File ''RIFF-query'')]) = demo_uploads"
  "os_remove (Some e) ''uploads/alice_2.wav''
      (demo_uploads @ [(''uploads/alice_2.wav'', File ''RIFF-query'')])
     = demo_uploads @ [(''uploads/alice_2.wav'', File ''RIFF-query'')]"
  by (simp_all add: os_remove_def demo_uploads_def)

lemma demo_match_results:
  "find_data_match demo_read demo_mfcc demo_abspath None None None demo_catalog demo_uploads
       (Some (''alice.wav'', ''RIFF-query'')) Database 3 (Finite 100)
     = (Inr (Shown [(''Alice'', ''/srv/uploads/alice.wav'', Finite (sqrt 320))]), demo_uploads)"
  by (simp add: find_data_match_def demo_query_saved demo_database_candidates
      demo_run_compare select_shown_def dist_of_def demo_query_removed)


text \<open>
  Claim C8. The query file is not removed on every failure path. A query
  \<^verbatim>\<open>alice.wav\<close> is uploaded into a managed directory that holds two files and matched
  against the catalog; it is saved as \<^verbatim>\<open>uploads/alice_2.wav\<close>. When nothing fails, the
  match is shown and the file system afterwards is the one before. When
  \<^verbatim>\<open>get_all_db_rows\<close> raises, when the call that shows the match raises, and when
  \<^verbatim>\<open>os.remove\<close> itself fails, the branch ends with \<^verbatim>\<open>uploads/alice_2.wav\<close> still in the
  managed directory.
\<close>

theorem query_file_left_on_failure:
  "find_data_match demo_read demo_mfcc demo_abspath None None None demo_catalog demo_uploads
       (Some (''alice.wav'', ''RIFF-query'')) Database 3 (Finite 100)
     = (Inr (Shown [(''Alice'', ''/srv/uploads/alice.wav'', Finite (sqrt 320))]), demo_uploads)
   \<and> map_of demo_uploads ''uploads/alice_2.wav'' = None
   \<and> find_data_match demo_read demo_mfcc demo_abspath (Some ''database is locked'') None None
       demo_catalog demo_uploads (Some (''alice.wav'', ''RIFF-query'')) Database 3 (Finite 100)
     = (Inl ''database is locked'',
        demo_uploads @ [(''uploads/alice_2.wav'', File ''RIFF-query'')])
   \<and> find_data_match demo_read demo_mfcc demo_abspath None (Some ''RerunException'') None
       demo_catalog demo_uploads (Some (''alice.wav'', ''RIFF-query'')) Database 3 (Finite 100)
     = (Inl ''RerunException'',
        demo_uploads @ [(''uploads/alice_2.wav'', File ''RIFF-query'')])
   \<and> find_data_match demo_read demo_mfcc demo_abspath None None (Some ''PermissionError'')
       demo_catalog demo_uploads (Some (''alice.wav'', ''RIFF-query'')) Database 3 (Finite 100)
     = (Inr (Shown [(''Alice'', ''/srv/uploads/alice.wav'', Finite (sqrt 320))]),
        demo_uploads @ [(''uploads/alice_2.wav'', File ''RIFF-query'')])
   \<and> map_of (demo_uploads @ [(''uploads/alice_2.wav'', File ''RIFF-query'')])
         ''uploads/alice_2.wav'' = Some (File ''RIFF-query'')"
proof -
  have shown: "find_data_match demo_read demo_mfcc demo_abspath None None None demo_catalog
      demo_uploads (Some (''alice.wav'', ''RIFF-query'')) Database 3 (Finite 100)
     = (Inr (Shown [(''Alice'', ''/srv/uploads/alice.wav'', Finite (sqrt 320))]), demo_uploads)"
    by (rule demo_match_results)
  have db: "find_data_match demo_read demo_mfcc demo_abspath (Some ''database is locked'') None
      None demo_catalog demo_uploads (Some (''alice.wav'', ''RIFF-query'')) Database 3 (Finite 100)
     = (Inl ''database is locked'',
        demo_uploads @ [(''uploads/alice_2.wav'', File ''RIFF-query'')])"
    by (simp add: find_data_match_def demo_query_saved)
  have ui: "find_data_match demo_read demo_mfcc demo_abspath None (Some ''RerunException'') None
      demo_catalog demo_uploads (Some (''alice.wav'', ''RIFF-query'')) Database 3 (Finite 100)
     = (Inl ''RerunException'',
        demo_uploads @ [(''uploads/alice_2.wav'', File ''RIFF-query'')])"
    by (simp add: find_data_match_def demo_query_saved demo_database_candidates
        demo_run_compare select_shown_def dist_of_def)
  have rm: "find_data_match demo_read demo_mfcc demo_abspath None None (Some ''PermissionError'')
      demo_catalog demo_uploads (Some (''alice.wav'', ''RIFF-query'')) Database 3 (Finite 100)
     = (Inr (Shown [(''Alice'', ''/srv/uploads/alice.wav'', Finite (sqrt 320))]),
        demo_uploads @ [(''uploads/alice_2.wav'', File ''RIFF-query'')])"
    by (simp add: find_data_match_def demo_query_saved demo_database_candidates
        demo_run_compare select_shown_def dist_of_def demo_query_removed)
  have fs: "map_of demo_uploads ''uploads/alice_2.wav'' = None"
    "map_of (demo_uploads @ [(''uploads/alice_2.wav'', File ''RIFF-query'')])
         ''uploads/alice_2.wav'' = Some (File ''RIFF-query'')"
    by (simp_all add: demo_uploads_def)
  show ?thesis
    unfolding shown db ui rm using fs by simp
qed

section \<open>Properties of the reconciliation\<close>

text \<open>What the reconciliation does register: every path the scan returns, and for
  which the insert does not fail, has exactly one row afterwards, named after the stem
  of the path when the row is new.\<close>

lemma save_voice_keeps_registered:
  "file_registered_in_db g db \<Longrightarrow> file_registered_in_db g (save_voice fault n f db)"
  by (simp add: file_registered_in_db_def save_voice_def insert_or_ignore_def
      split: option.splits)

lemma save_voice_keeps_row:
  "r \<in> set (get_all_db_rows db) \<Longrightarrow> r \<in> set (get_all_db_rows (save_voice fault n f db))"
  by (auto simp: get_all_db_rows_def save_voice_def insert_or_ignore_def split: option.splits)

lemma save_voice_new_row:
  "\<not> file_registered_in_db f db \<Longrightarrow>
     (n, f) \<in> set (get_all_db_rows (insert_or_ignore n f db))"
  by (simp add: get_all_db_rows_def insert_or_ignore_def file_registered_in_db_def)

lemma save_voice_other_unregistered:
  "\<not> file_registered_in_db g db \<Longrightarrow> g \<noteq> f \<Longrightarrow>
     \<not> file_registered_in_db g (save_voice fault n f db)"
  by (simp add: file_registered_in_db_def save_voice_def insert_or_ignore_def
      split: option.splits)

lemma sync_files_invariants:
  "unique_filenames db \<Longrightarrow> unique_filenames (snd (sync_files insert_fault files cnt db))"
  "file_registered_in_db g db \<Longrightarrow>
     file_registered_in_db g (snd (sync_files insert_fault files cnt db))"
  "r \<in> set (get_all_db_rows db) \<Longrightarrow>
     r \<in> set (get_all_db_rows (snd (sync_files insert_fault files cnt db)))"
  by (induction files arbitrary: cnt db)
     (simp_all add: save_voice_unique save_voice_keeps_registered save_voice_keeps_row)

lemma sync_files_registers:
  "g \<in> set files \<Longrightarrow> insert_fault g = None \<Longrightarrow>
     file_registered_in_db g (snd (sync_files insert_fault files cnt db))"
proof (induction files arbitrary: cnt db)
  case Nil
  then show ?case by simp
next
  case (Cons f files)
  show ?case
  proof (cases "g = f")
    case True
    with Cons.prems(2) show ?thesis
      by (simp add: sync_files_invariants(2) save_voice_None insert_registered)
  next
    case False
    with Cons show ?thesis by simp
  qed
qed

lemma sync_files_names:
  "g \<in> set files \<Longrightarrow> insert_fault g = None \<Longrightarrow> \<not> file_registered_in_db g db \<Longrightarrow>
     (path_stem (Path g), g)
       \<in> set (get_all_db_rows (snd (sync_files insert_fault files cnt db)))"
proof (induction files arbitrary: cnt db)
  case Nil
  then show ?case by simp
next
  case (Cons f files)
  show ?case
  proof (cases "g = f")
    case True
    with Cons.prems(2,3) show ?thesis
      by (simp add: sync_files_invariants(3) save_voice_None save_voice_new_row)
  next
    case False
    with Cons.prems have "g \<in> set files"
      and "\<not> file_registered_in_db g (save_voice (insert_fault f) (path_stem (Path f)) f db)"
      by (simp_all add: save_voice_other_unregistered)
    with Cons.prems(2,3) show ?thesis
      by (simp add: Cons.IH)
  qed
qed

lemma sync_uploads_to_db_scanned:
  assumes "unique_filenames db" and "f \<in> set (scan_uploads_for_audio abspath fs)"
    and "insert_fault f = None"
  shows "length (filter (\<lambda>(n, p). p = f)
            (get_all_db_rows (snd (sync_uploads_to_db insert_fault abspath fs db)))) = 1"
    and "\<not> file_registered_in_db f db \<Longrightarrow>
           (path_stem (Path f), f)
             \<in> set (get_all_db_rows (snd (sync_uploads_to_db insert_fault abspath fs db)))"
proof -
  let ?db' = "snd (sync_uploads_to_db insert_fault abspath fs db)"
  have "distinct (map row_filename (voices ?db'))"
    using sync_files_invariants(1) [OF assms(1)]
    by (simp add: sync_uploads_to_db_def unique_filenames_def)
  moreover have "f \<in> set (map row_filename (voices ?db'))"
    using sync_files_registers [of f _ insert_fault 0 db, OF assms(2,3)]
    by (simp add: sync_uploads_to_db_def file_registered_in_db_def)
  ultimately show "length (filter (\<lambda>(n, p). p = f) (get_all_db_rows ?db')) = 1"
    by (simp add: rows_for_path distinct_one_row)
  show "(path_stem (Path f), f) \<in> set (get_all_db_rows ?db')" if "\<not> file_registered_in_db f db"
    unfolding sync_uploads_to_db_def
    using sync_files_names [of f _ insert_fault db 0, OF assms(2,3) that] .
qed

lemma demo_sync:
  "sync_uploads_to_db no_insert_fault demo_abspath demo_fs (init_db None) =
     (2, \<lparr>voices = [\<lparr>row_id = 1, row_name = ''a'', row_filename = ''/srv/uploads/a.wav''\<rparr>,
                    \<lparr>row_id = 2, row_name = ''b'', row_filename = ''/srv/uploads/sub/b.mp3''\<rparr>],
          sqlite_sequence = 2\<rparr>)"
  by code_simp

text \<open>
  Claim C3 says that after \<^verbatim>\<open>sync_uploads_to_db\<close> every file under the managed directory
  whose extension is a supported one, compared case-insensitively, has exactly one
  catalog row. The scan behind it matches with \<^verbatim>\<open>glob\<close>, which on POSIX compares
  case-sensitively: in a managed directory holding \<^verbatim>\<open>a.wav\<close>, \<^verbatim>\<open>A.WAV\<close> and
  \<^verbatim>\<open>sub/b.mp3\<close>, the file \<^verbatim>\<open>A.WAV\<close> passes the extension check the ingestion code
  applies (the name is lowered first), yet the scan does not return it and the
  reconciled catalog has no row for it.
\<close>

theorem sync_misses_uppercase_extension:
  "map_of demo_fs ''uploads/A.WAV'' = Some (File ''RIFF-A'')
   \<and> has_audio_ext (lower (basename ''uploads/A.WAV''))
   \<and> lower (path_suffix (Path ''uploads/A.WAV'')) \<in> set ALLOWED_AUDIO_EXTS
   \<and> scan_uploads_for_audio demo_abspath demo_fs = [''/srv/uploads/a.wav'', ''/srv/uploads/sub/b.mp3'']
   \<and> get_all_db_rows (snd (sync_uploads_to_db no_insert_fault demo_abspath demo_fs (init_db None)))
       = [(''a'', ''/srv/uploads/a.wav''), (''b'', ''/srv/uploads/sub/b.mp3'')]
   \<and> \<not> file_registered_in_db (demo_abspath ''uploads/A.WAV'')
         (snd (sync_uploads_to_db no_insert_fault demo_abspath demo_fs (init_db None)))"
  by (simp add: demo_sync demo_scan) code_simp

end
